theory Spec2Isabelle
  imports Complex_Main "HOL-Library.Extended_Nat" "HOL-Library.Sublist"
begin

section \<open>JavaScript numbers\<close>

text \<open>
  The metrics are JavaScript numbers. Counters that are only ever incremented by
  integers are modelled as \<open>int\<close> or \<open>nat\<close>. Values that pass through division
  or \<open>Math.log\<close> are modelled as \<open>jsnum\<close>: a real number, one of the two
  infinities, or NaN. Finite arithmetic is the arithmetic of the reals (rounding is not
  modelled), and zero is unsigned: every divisor of the program is a count, a sum of
  integers started at \<open>+0\<close> or a positive constant, so \<open>-0\<close> never reaches a division.
\<close>

datatype jsnum = NaN | NegInf | Fin real | PosInf

fun jneg :: "jsnum \<Rightarrow> jsnum" where
  "jneg NaN = NaN"
| "jneg NegInf = PosInf"
| "jneg (Fin a) = Fin (- a)"
| "jneg PosInf = NegInf"

fun jadd :: "jsnum \<Rightarrow> jsnum \<Rightarrow> jsnum" where
  "jadd NaN _ = NaN"
| "jadd _ NaN = NaN"
| "jadd (Fin a) (Fin b) = Fin (a + b)"
| "jadd PosInf NegInf = NaN"
| "jadd NegInf PosInf = NaN"
| "jadd PosInf _ = PosInf"
| "jadd _ PosInf = PosInf"
| "jadd NegInf _ = NegInf"
| "jadd _ NegInf = NegInf"

definition jsub :: "jsnum \<Rightarrow> jsnum \<Rightarrow> jsnum" where
  "jsub a b = jadd a (jneg b)"

text \<open>The sign of a number that is not NaN: -1, 0 or 1.\<close>

fun jsign :: "jsnum \<Rightarrow> int" where
  "jsign NaN = 0"
| "jsign NegInf = - 1"
| "jsign (Fin a) = (if a < 0 then - 1 else if a = 0 then 0 else 1)"
| "jsign PosInf = 1"

definition inf_of_sign :: "int \<Rightarrow> jsnum" where
  "inf_of_sign s = (if s = 0 then NaN else if s < 0 then NegInf else PosInf)"

fun jmul :: "jsnum \<Rightarrow> jsnum \<Rightarrow> jsnum" where
  "jmul NaN _ = NaN"
| "jmul _ NaN = NaN"
| "jmul (Fin a) (Fin b) = Fin (a * b)"
| "jmul a b = inf_of_sign (jsign a * jsign b)"

fun jdiv :: "jsnum \<Rightarrow> jsnum \<Rightarrow> jsnum" where
  "jdiv NaN _ = NaN"
| "jdiv _ NaN = NaN"
| "jdiv (Fin a) (Fin b) = (if b = 0 then inf_of_sign (jsign (Fin a)) else Fin (a / b))"
| "jdiv (Fin a) _ = Fin 0"
| "jdiv a (Fin b) = inf_of_sign (jsign a * (if b < 0 then - 1 else 1))"
| "jdiv _ _ = NaN"

text \<open>\<open>Math.log\<close>.\<close>

fun jlog :: "jsnum \<Rightarrow> jsnum" where
  "jlog NaN = NaN"
| "jlog NegInf = NaN"
| "jlog (Fin a) = (if a < 0 then NaN else if a = 0 then NegInf else Fin (ln a))"
| "jlog PosInf = PosInf"

text \<open>The comparisons \<open>a > b\<close> and \<open>a < b\<close>: false as soon as one side is NaN.\<close>

fun jless :: "jsnum \<Rightarrow> jsnum \<Rightarrow> bool" where
  "jless NaN _ = False"
| "jless _ NaN = False"
| "jless (Fin a) (Fin b) = (a < b)"
| "jless NegInf NegInf = False"
| "jless NegInf _ = True"
| "jless _ NegInf = False"
| "jless PosInf _ = False"
| "jless _ PosInf = True"

definition jgreater :: "jsnum \<Rightarrow> jsnum \<Rightarrow> bool" where
  "jgreater a b = jless b a"

text \<open>\<open>Math.max(a, b)\<close>: NaN as soon as one argument is NaN.\<close>

definition jmax :: "jsnum \<Rightarrow> jsnum \<Rightarrow> jsnum" where
  "jmax a b = (if a = NaN \<or> b = NaN then NaN else if jless a b then b else a)"

definition num :: "int \<Rightarrow> jsnum" where
  "num i = Fin (real_of_int i)"

text \<open>Reading a field that may be absent in an arithmetic context: \<open>undefined\<close> is NaN.\<close>

definition toNumber :: "jsnum option \<Rightarrow> jsnum" where
  "toNumber v = (case v of None \<Rightarrow> NaN | Some x \<Rightarrow> x)"

section \<open>Data model\<close>

text \<open>A Halstead bag: \<open>createInitialHalsteadItemState\<close>.\<close>

record halstead_item =
  distinct :: nat
  identifiers :: "string list"
  total :: nat

text \<open>
  The Halstead state of a report: the two bags, and the derived values that
  \<open>calculateHalsteadMetrics\<close> adds (absent, \<open>None\<close>, until then).
\<close>

record halstead_state =
  operands :: halstead_item
  operators :: halstead_item
  h_length :: "jsnum option"
  vocabulary :: "jsnum option"
  difficulty :: "jsnum option"
  volume :: "jsnum option"
  effort :: "jsnum option"
  bugs :: "jsnum option"
  time :: "jsnum option"

record sloc_state =
  logical :: int
  physical :: "int option"

record function_report =
  cyclomatic :: int
  halstead :: halstead_state
  name :: "string option"
  params :: int
  sloc :: sloc_state
  line :: "int option"
  cyclomaticDensity :: "jsnum option"

record dependency =
  dep_type :: string
  dep_path :: string

text \<open>
  The module report of \<open>createReport\<close>; the last five fields are the ones
  \<open>calculateMetrics\<close> sets (\<open>report.maintainability\<close>, \<open>report.loc\<close>,
  \<open>report.cyclomatic\<close>, \<open>report.effort\<close>, \<open>report.params\<close>).
\<close>

record module_report =
  aggregate :: function_report
  dependencies :: "dependency list"
  functionReports :: "function_report list"
  maintainability :: "jsnum option"
  m_loc :: "jsnum option"
  m_cyclomatic :: "jsnum option"
  m_effort :: "jsnum option"
  m_params :: "jsnum option"

text \<open>The project analyser adds the module's path to its report (\<open>report.path = m.path\<close>).\<close>

record project_module = module_report +
  path :: string

record project_result =
  reports :: "project_module list"
  adjacencyMatrix :: "nat list list option"
  firstOrderDensity :: "real option"
  visibilityMatrix :: "nat list list option"
  changeCost :: "real option"
  coreSize :: "real option"
  p_cyclomatic :: "jsnum option"
  p_effort :: "jsnum option"
  p_loc :: "jsnum option"
  p_maintainability :: "jsnum option"
  p_params :: "jsnum option"

text \<open>
  Node's \<open>path\<close> module is not part of the repository: the functions of it that
  \<open>project.js\<close> calls are a parameter of the model.
\<close>

record path_host =
  sep :: char
  resolve :: "string list \<Rightarrow> string"
  dirname :: "string \<Rightarrow> string"
  extname :: "string \<Rightarrow> string"
  join :: "string list \<Rightarrow> string"

text \<open>
  A concrete instance of the parameter for evaluating the model on concrete projects:
  Node's POSIX \<open>path\<close> functions with the working directory \<open>cwd\<close> (an absolute,
  normalised path), on paths without a trailing separator.
\<close>

text \<open>\<open>s.split(c)\<close> for a separator of one character, and \<open>ss.join(c)\<close>.\<close>

fun split_on :: "char \<Rightarrow> string \<Rightarrow> string list" where
  "split_on c [] = [[]]"
| "split_on c (x # xs) =
     (if x = c then [] # split_on c xs
      else (case split_on c xs of [] \<Rightarrow> [[x]] | s # ss \<Rightarrow> (x # s) # ss))"

fun join_with :: "char \<Rightarrow> string list \<Rightarrow> string" where
  "join_with c [] = []"
| "join_with c [s] = s"
| "join_with c (s # ss) = s @ c # join_with c ss"

text \<open>One segment of a normalisation: \<open>.\<close> and empty segments vanish, \<open>..\<close> removes a segment.\<close>

definition norm_step :: "bool \<Rightarrow> string list \<Rightarrow> string \<Rightarrow> string list" where
  "norm_step absolute acc seg =
     (if seg = [] \<or> seg = ''.'' then acc
      else if seg = ''..''
      then (if acc \<noteq> [] \<and> last acc \<noteq> ''..'' then butlast acc
            else if absolute then acc else acc @ [seg])
      else acc @ [seg])"

definition posix_normalize :: "string \<Rightarrow> string" where
  "posix_normalize p =
     (let absolute = (p \<noteq> [] \<and> hd p = CHR ''/'');
          segs = foldl (norm_step absolute) [] (split_on CHR ''/'' p)
      in if absolute then CHR ''/'' # join_with CHR ''/'' segs
         else if segs = [] then ''.'' else join_with CHR ''/'' segs)"

definition posix_resolve :: "string \<Rightarrow> string list \<Rightarrow> string" where
  "posix_resolve cwd segs =
     posix_normalize
       (foldl (\<lambda>cur seg. if seg = [] then cur
                          else if hd seg = CHR ''/'' then seg
                          else cur @ CHR ''/'' # seg) cwd segs)"

definition posix_join :: "string list \<Rightarrow> string" where
  "posix_join segs = posix_normalize (join_with CHR ''/'' (filter (\<lambda>s. s \<noteq> []) segs))"

definition posix_dirname :: "string \<Rightarrow> string" where
  "posix_dirname p =
     (let segs = split_on CHR ''/'' p in
      if length segs \<le> 1 then ''.''
      else if butlast segs = [[]] then ''/''
      else join_with CHR ''/'' (butlast segs))"

text \<open>
  The extension: from the last dot of the last segment that is not empty (separators at the
  end are skipped), unless that dot starts the segment.
\<close>

definition posix_extname :: "string \<Rightarrow> string" where
  "posix_extname p =
     (let segs = filter (\<lambda>s. s \<noteq> []) (split_on CHR ''/'' p);
          base = (if segs = [] then [] else last segs);
          ext = CHR ''.'' # last (split_on CHR ''.'' base)
      in if CHR ''.'' \<notin> set base \<or> length ext = length base \<or> base = ''..'' then [] else ext)"

definition posix :: "string \<Rightarrow> path_host" where
  "posix cwd = \<lparr>sep = CHR ''/'', resolve = posix_resolve cwd, dirname = posix_dirname,
                extname = posix_extname, join = posix_join\<rparr>"

section \<open>The project analyser: \<open>project.js\<close>\<close>

subsection \<open>Path ordering\<close>

text \<open>The comparison \<open>lhs < rhs\<close> of two strings: lexicographic on the character codes.\<close>

fun str_less :: "string \<Rightarrow> string \<Rightarrow> bool" where
  "str_less [] [] = False"
| "str_less [] (y # ys) = True"
| "str_less (x # xs) [] = False"
| "str_less (x # xs) (y # ys) =
     ((of_char x :: nat) < of_char y \<or> (x = y \<and> str_less xs ys))"

definition comparePaths :: "path_host \<Rightarrow> string \<Rightarrow> string \<Rightarrow> int" where
  "comparePaths P lhs rhs =
     (let lsplit = split_on (sep P) lhs; rsplit = split_on (sep P) rhs in
      if length lsplit < length rsplit \<or> (length lsplit = length rsplit \<and> str_less lhs rhs)
      then - 1
      else if length lsplit > length rsplit \<or> (length lsplit = length rsplit \<and> str_less rhs lhs)
      then 1
      else 0)"

text \<open>
  \<open>Array.prototype.sort\<close> with a comparator: a stable sort, written as an insertion
  sort (an element goes before the first element it does not compare greater than).
\<close>

fun insert_by :: "('a \<Rightarrow> 'a \<Rightarrow> int) \<Rightarrow> 'a \<Rightarrow> 'a list \<Rightarrow> 'a list" where
  "insert_by cmp x [] = [x]"
| "insert_by cmp x (y # ys) =
     (if cmp x y \<le> 0 then x # y # ys else y # insert_by cmp x ys)"

definition sort_by :: "('a \<Rightarrow> 'a \<Rightarrow> int) \<Rightarrow> 'a list \<Rightarrow> 'a list" where
  "sort_by cmp xs = foldr (insert_by cmp) xs []"

subsection \<open>Dependency matching\<close>

definition isCommonJSDependency :: "dependency \<Rightarrow> bool" where
  "isCommonJSDependency d = (dep_type d = ''CommonJS'')"

text \<open>\<open>s[i]\<close>: the character at an index, \<open>undefined\<close> (\<open>None\<close>) out of range.\<close>

definition charAt :: "string \<Rightarrow> nat \<Rightarrow> char option" where
  "charAt s i = (if i < length s then Some (s ! i) else None)"

definition isInternalCommonJSDependency :: "path_host \<Rightarrow> dependency \<Rightarrow> bool" where
  "isInternalCommonJSDependency P d =
     (charAt (dep_path d) 0 = Some CHR ''.'' \<and>
      (charAt (dep_path d) 1 = Some (sep P) \<or>
       (charAt (dep_path d) 1 = Some CHR ''.'' \<and> charAt (dep_path d) 2 = Some (sep P))))"

definition isDependency :: "path_host \<Rightarrow> string \<Rightarrow> dependency \<Rightarrow> string \<Rightarrow> bool" where
  "isDependency P from d to =
     (let dependencyPath = dep_path d;
          fromFileAbsolutePath = resolve P [from];
          toFileAbsolutePath = resolve P [to];
          dependencyAbsolutePath = resolve P [dirname P fromFileAbsolutePath, dependencyPath]
      in if extname P dependencyPath = []
         then (let index = join P [dependencyAbsolutePath, ''index.js''] in
               if index = toFileAbsolutePath then True
               else dependencyAbsolutePath @ extname P to = toFileAbsolutePath)
         else dependencyAbsolutePath = toFileAbsolutePath)"

definition checkDependency :: "path_host \<Rightarrow> string \<Rightarrow> dependency \<Rightarrow> string \<Rightarrow> bool" where
  "checkDependency P from d to =
     (if isCommonJSDependency d
      then (if isInternalCommonJSDependency P d then isDependency P from d to else False)
      else isDependency P from d to)"

definition doesDependencyExist :: "path_host \<Rightarrow> project_module \<Rightarrow> project_module \<Rightarrow> bool" where
  "doesDependencyExist P from to =
     foldl (\<lambda>result d. if result = False then checkDependency P (path from) d (path to) else True)
       False (dependencies from)"

definition getAdjacencyMatrixValue :: "path_host \<Rightarrow> project_module list \<Rightarrow> nat \<Rightarrow> nat \<Rightarrow> nat" where
  "getAdjacencyMatrixValue P rs x y =
     (if x = y then 0 else if doesDependencyExist P (rs ! x) (rs ! y) then 1 else 0)"

subsection \<open>Adjacency matrix and density\<close>

text \<open>
  \<open>percentify\<close>, with the division and the product on the reals: the quotient is exact
  here, where the program rounds it to a double before it multiplies by 100.
\<close>

definition percentify :: "nat \<Rightarrow> nat \<Rightarrow> real" where
  "percentify v limit = (if limit = 0 then 0 else (real v / real limit) * 100)"

definition percentifyDensity :: "nat \<Rightarrow> 'a list list \<Rightarrow> real" where
  "percentifyDensity density matrix = percentify density (length matrix * length matrix)"

text \<open>The number of cells equal to 1, which the loops of \<open>createAdjacencyMatrix\<close> count.\<close>

definition count_ones :: "nat list list \<Rightarrow> nat" where
  "count_ones m = sum_list (map (\<lambda>row. length (filter (\<lambda>v. v = 1) row)) m)"

definition createAdjacencyMatrix :: "path_host \<Rightarrow> project_result \<Rightarrow> project_result" where
  "createAdjacencyMatrix P result =
     (let rs = sort_by (\<lambda>lhs rhs. comparePaths P (path lhs) (path rhs)) (reports result);
          n = length rs;
          m = map (\<lambda>x. map (\<lambda>y. getAdjacencyMatrixValue P rs x y) [0..<n]) [0..<n]
      in result\<lparr>reports := rs, adjacencyMatrix := Some m,
                firstOrderDensity := Some (percentifyDensity (count_ones m) m)\<rparr>)"

subsection \<open>Visibility matrix\<close>

text \<open>
  The distances of \<open>createVisibilityMatrix\<close> are positive integers or \<open>Infinity\<close>:
  they are modelled as \<open>enat\<close>. \<open>matrix[i][j] || Infinity\<close> is \<open>Infinity\<close> for the
  cell 0 and the cell itself otherwise.
\<close>

definition adjacencyToDistMatrix :: "nat list list \<Rightarrow> enat list list" where
  "adjacencyToDistMatrix matrix =
     map (\<lambda>i. map (\<lambda>j. if i = j then 1
                        else if matrix ! i ! j = 0 then \<infinity> else enat (matrix ! i ! j))
                 [0..<length (matrix ! i)])
         [0..<length matrix]"

text \<open>The body of the innermost loop: one in-place update of the cell \<open>(i, j)\<close>.\<close>

definition relax :: "nat \<Rightarrow> nat \<Rightarrow> nat \<Rightarrow> enat list list \<Rightarrow> enat list list" where
  "relax k i j D =
     (if D ! i ! j > D ! i ! k + D ! k ! j
      then D[i := (D ! i)[j := D ! i ! k + D ! k ! j]]
      else D)"

definition loop_j :: "nat \<Rightarrow> nat \<Rightarrow> nat \<Rightarrow> enat list list \<Rightarrow> enat list list" where
  "loop_j n k i D = foldl (\<lambda>D j. relax k i j D) D [0..<n]"

definition loop_i :: "nat \<Rightarrow> nat \<Rightarrow> enat list list \<Rightarrow> enat list list" where
  "loop_i n k D = foldl (\<lambda>D i. loop_j n k i D) D [0..<n]"

definition loop_k :: "nat \<Rightarrow> enat list list \<Rightarrow> enat list list" where
  "loop_k n D = foldl (\<lambda>D k. loop_i n k D) D [0..<n]"

text \<open>The conversion back to a 0/1 matrix, and the cells it counts into \<open>changeCost\<close>.\<close>

definition toVisibility :: "enat list list \<Rightarrow> nat list list" where
  "toVisibility D =
     map (\<lambda>rowIndex. map (\<lambda>columnIndex.
            if D ! rowIndex ! columnIndex < \<infinity> \<and> columnIndex \<noteq> rowIndex then 1 else 0)
          [0..<length (D ! rowIndex)])
       [0..<length D]"

definition count_finite :: "enat list list \<Rightarrow> nat" where
  "count_finite D = sum_list (map (\<lambda>row. length (filter (\<lambda>v. v < \<infinity>) row)) D)"

definition createVisibilityMatrix :: "project_result \<Rightarrow> project_result" where
  "createVisibilityMatrix result =
     (let dist = adjacencyToDistMatrix (the (adjacencyMatrix result));
          matrixLen = length dist;
          dist' = loop_k matrixLen dist;
          v = toVisibility dist'
      in result\<lparr>visibilityMatrix := Some v,
                changeCost := Some (percentifyDensity (count_finite dist') v)\<rparr>)"

subsection \<open>Core size\<close>

text \<open>\<open>values.sort(compareNumbers)\<close> is the ascending numeric sort.\<close>

definition getMedian :: "nat list \<Rightarrow> real" where
  "getMedian values0 =
     (let values = sort values0 in
      if length values mod 2 = 1 then real (values ! ((length values - 1) div 2))
      else (real (values ! ((length values - 2) div 2)) + real (values ! (length values div 2))) / 2)"

text \<open>
  One row of the first \<open>forEach\<close> of \<open>setCoreSize\<close>: the \<open>reduce\<close> returns the sum of
  the row, and overwrites (first row) or increments (later rows) the entries of \<open>fanOut\<close>.
\<close>

definition fanRow :: "nat \<Rightarrow> nat list \<Rightarrow> nat list \<Rightarrow> nat \<times> nat list" where
  "fanRow rowIndex row fanOut =
     foldl (\<lambda>(s, fo) valueIndex.
              (s + row ! valueIndex,
               if rowIndex = 0 then fo[valueIndex := row ! valueIndex]
               else fo[valueIndex := fo ! valueIndex + row ! valueIndex]))
       (0, fanOut) [0..<length row]"

definition fans :: "nat list list \<Rightarrow> nat list \<times> nat list" where
  "fans v =
     foldl (\<lambda>(fanIn, fanOut) rowIndex.
              (let (s, fo) = fanRow rowIndex (v ! rowIndex) fanOut
               in (fanIn[rowIndex := s], fo)))
       (replicate (length v) 0, replicate (length v) 0) [0..<length v]"

definition setCoreSize :: "project_result \<Rightarrow> project_result" where
  "setCoreSize result =
     (if firstOrderDensity result = Some 0 then result\<lparr>coreSize := Some 0\<rparr>
      else
        (let v = the (visibilityMatrix result);
             (fanIn, fanOut) = fans v;
             boundaryIn = getMedian fanIn;
             boundaryOut = getMedian fanOut;
             core = length (filter (\<lambda>index. real (fanIn ! index) \<ge> boundaryIn
                                            \<and> real (fanOut ! index) \<ge> boundaryOut)
                              [0..<length v])
         in result\<lparr>coreSize := Some (percentify core (length v))\<rparr>))"

subsection \<open>Averages and \<open>processResults\<close>\<close>

definition sum_field :: "(project_module \<Rightarrow> jsnum option) \<Rightarrow> project_module list \<Rightarrow> jsnum" where
  "sum_field f rs = foldl (\<lambda>s r. jadd s (toNumber (f r))) (Fin 0) rs"

definition calculateAverages :: "project_result \<Rightarrow> project_result" where
  "calculateAverages result =
     (let divisor = (if length (reports result) = 0 then 1 else int (length (reports result)));
          avg = (\<lambda>f. Some (jdiv (sum_field f (reports result)) (num divisor)))
      in result\<lparr>p_cyclomatic := avg m_cyclomatic, p_effort := avg m_effort, p_loc := avg m_loc,
                p_maintainability := avg maintainability, p_params := avg m_params\<rparr>)"

definition processResults :: "path_host \<Rightarrow> project_result \<Rightarrow> bool \<Rightarrow> project_result" where
  "processResults P result noCoreSize =
     (let r1 = createAdjacencyMatrix P result;
          r2 = (if \<not> noCoreSize then setCoreSize (createVisibilityMatrix r1) else r1)
      in calculateAverages r2)"

text \<open>The object \<open>{ reports: reports }\<close> that \<open>analyse\<close> hands to \<open>processResults\<close>.\<close>

definition initialResult :: "project_module list \<Rightarrow> project_result" where
  "initialResult rs =
     \<lparr>reports = rs, adjacencyMatrix = None, firstOrderDensity = None, visibilityMatrix = None,
      changeCost = None, coreSize = None, p_cyclomatic = None, p_effort = None, p_loc = None,
      p_maintainability = None, p_params = None\<rparr>"

section \<open>The module analyser: \<open>module.js\<close>\<close>

subsection \<open>Reports\<close>

definition createInitialHalsteadItemState :: halstead_item where
  "createInitialHalsteadItemState = \<lparr>distinct = 0, identifiers = [], total = 0\<rparr>"

definition createInitialHalsteadState :: halstead_state where
  "createInitialHalsteadState =
     \<lparr>operands = createInitialHalsteadItemState, operators = createInitialHalsteadItemState,
      h_length = None, vocabulary = None, difficulty = None, volume = None, effort = None,
      bugs = None, time = None\<rparr>"

text \<open>
  A location \<open>lines\<close>, when it is an object, is the pair of \<open>lines.start.line\<close> and
  \<open>lines.end.line\<close>.
\<close>

definition createFunctionReport :: "string option \<Rightarrow> (int \<times> int) option \<Rightarrow> int \<Rightarrow> function_report" where
  "createFunctionReport nm lines ps =
     \<lparr>cyclomatic = 1, halstead = createInitialHalsteadState, name = nm, params = ps,
      sloc = \<lparr>logical = 0,
               physical = (case lines of None \<Rightarrow> None | Some (s, e) \<Rightarrow> Some (e - s + 1))\<rparr>,
      line = (case lines of None \<Rightarrow> None | Some (s, e) \<Rightarrow> Some s),
      cyclomaticDensity = None\<rparr>"

definition createReport :: "(int \<times> int) option \<Rightarrow> module_report" where
  "createReport lines =
     \<lparr>aggregate = createFunctionReport None lines 0, dependencies = [], functionReports = [],
      maintainability = None, m_loc = None, m_cyclomatic = None, m_effort = None,
      m_params = None\<rparr>"

subsection \<open>Halstead bags\<close>

datatype metric = Operators | Operands

datatype counter = Distinct | Total

fun bag :: "metric \<Rightarrow> halstead_state \<Rightarrow> halstead_item" where
  "bag Operators h = operators h"
| "bag Operands h = operands h"

fun set_bag :: "metric \<Rightarrow> halstead_item \<Rightarrow> halstead_state \<Rightarrow> halstead_state" where
  "set_bag Operators b h = h\<lparr>operators := b\<rparr>"
| "set_bag Operands b h = h\<lparr>operands := b\<rparr>"

text \<open>\<open>baseReport.halstead[metric][type] += 1\<close>.\<close>

definition incrementHalsteadMetric :: "function_report \<Rightarrow> metric \<Rightarrow> counter \<Rightarrow> function_report" where
  "incrementHalsteadMetric baseReport m c =
     (let b = bag m (halstead baseReport);
          b' = (case c of Distinct \<Rightarrow> b\<lparr>distinct := distinct b + 1\<rparr>
                        | Total \<Rightarrow> b\<lparr>total := total b + 1\<rparr>)
      in baseReport\<lparr>halstead := set_bag m b' (halstead baseReport)\<rparr>)"

definition incrementTotalHalsteadItems :: "function_report \<Rightarrow> metric \<Rightarrow> function_report" where
  "incrementTotalHalsteadItems baseReport m = incrementHalsteadMetric baseReport m Total"

definition isHalsteadMetricDistinct :: "function_report \<Rightarrow> metric \<Rightarrow> string \<Rightarrow> bool" where
  "isHalsteadMetricDistinct baseReport m ident \<longleftrightarrow>
     ident \<notin> set (identifiers (bag m (halstead baseReport)))"

definition recordDistinctHalsteadMetric :: "function_report \<Rightarrow> metric \<Rightarrow> string \<Rightarrow> function_report" where
  "recordDistinctHalsteadMetric baseReport m ident =
     (let b = bag m (halstead baseReport)
      in baseReport\<lparr>halstead := set_bag m (b\<lparr>identifiers := identifiers b @ [ident]\<rparr>)
                                     (halstead baseReport)\<rparr>)"

text \<open>
  \<open>Object.prototype.hasOwnProperty(identifier)\<close> asks the host whether the identifier
  names an own property of \<open>Object.prototype\<close>. The list \<open>own\<close> of these names is a
  parameter of the model. It is finite, so the recursion ends: an identifier longer than
  every name of the list is not in it.
\<close>

definition longest :: "string list \<Rightarrow> nat" where
  "longest own = foldr (\<lambda>s m. max (length s) m) own 0"

lemma length_le_longest: "s \<in> set own \<Longrightarrow> length s \<le> longest own"
  by (induction own) (auto simp: longest_def)

function incrementDistinctHalsteadItems ::
  "string list \<Rightarrow> function_report \<Rightarrow> metric \<Rightarrow> string \<Rightarrow> function_report" where
  "incrementDistinctHalsteadItems own baseReport m ident =
     (if ident \<in> set own
      then incrementDistinctHalsteadItems own baseReport m (CHR ''_'' # ident)
      else if isHalsteadMetricDistinct baseReport m ident
      then incrementHalsteadMetric (recordDistinctHalsteadMetric baseReport m ident) m Distinct
      else baseReport)"
  by pat_completeness auto
termination
  by (relation "measure (\<lambda>(own, baseReport, m, ident). Suc (longest own) - length ident)")
     (auto dest: length_le_longest)

definition incrementHalsteadItems ::
  "string list \<Rightarrow> function_report \<Rightarrow> metric \<Rightarrow> string \<Rightarrow> function_report" where
  "incrementHalsteadItems own baseReport m ident =
     incrementTotalHalsteadItems (incrementDistinctHalsteadItems own baseReport m ident) m"

text \<open>
  The own property names of \<open>Object.prototype\<close> in a standard host, for evaluating the
  model on concrete walks.
\<close>

definition standardOwnProperties :: "string list" where
  "standardOwnProperties =
     [''constructor'', ''hasOwnProperty'', ''isPrototypeOf'', ''propertyIsEnumerable'',
      ''toLocaleString'', ''toString'', ''valueOf'', ''__defineGetter__'', ''__defineSetter__'',
      ''__lookupGetter__'', ''__lookupSetter__'', ''__proto__'']"

subsection \<open>The walk\<close>

text \<open>
  What a walker's syntax descriptor holds. \<open>lloc\<close> and \<open>cyclomatic\<close> are a number, a
  function of the node, or anything else (ignored); the amounts are integers. An entry of
  \<open>operators\<close> or \<open>operands\<close> has an identifier (a string or a function of the node)
  and an optional filter. \<open>dependencies\<close>, when it is a function, returns an object (one
  dependency record), an array of records, or something that is not an object.
\<close>

datatype 'n amount = NoAmount | Literal int | Computed "'n \<Rightarrow> int"

record 'n halstead_descriptor =
  h_identifier :: "string + ('n \<Rightarrow> string)"
  h_filter :: "('n \<Rightarrow> bool) option"

datatype dependency_result =
  DependencyObject dependency | DependencyArray "dependency list" | NotAnObject

record 'n syntax_descriptor =
  s_lloc :: "'n amount"
  s_cyclomatic :: "'n amount"
  s_operators :: "'n halstead_descriptor list option"
  s_operands :: "'n halstead_descriptor list option"
  s_dependencies :: "('n \<Rightarrow> bool \<Rightarrow> dependency_result) option"

text \<open>
  The state of one run of \<open>analyse\<close>: the module-level \<open>report\<close> and the variables of
  the closure. \<open>currentReport\<close> and the entries of \<open>scopeStack\<close> are references to
  objects that are also elements of \<open>report.functions\<close>: they are modelled as indices into
  that array, so an update through \<open>currentReport\<close> is an update of the array element.
  The last element of \<open>scopeStack\<close> is its top. \<open>dependencyCalls\<close> is not a variable of
  the program: it logs the \<open>clearDependencies\<close> argument of every call of a
  \<open>dependencies\<close> descriptor, in order.
\<close>

record analysis =
  report :: module_report
  currentReport :: "nat option"
  scopeStack :: "nat list"
  clearDependencies :: bool
  dependencyCalls :: "bool list"

definition onAggregate :: "(function_report \<Rightarrow> function_report) \<Rightarrow> analysis \<Rightarrow> analysis" where
  "onAggregate f st = st\<lparr>report := (report st)\<lparr>aggregate := f (aggregate (report st))\<rparr>\<rparr>"

text \<open>An update of the object \<open>currentReport\<close> refers to, if it refers to one.\<close>

definition onCurrent :: "(function_report \<Rightarrow> function_report) \<Rightarrow> analysis \<Rightarrow> analysis" where
  "onCurrent f st =
     (case currentReport st of
        None \<Rightarrow> st
      | Some i \<Rightarrow> st\<lparr>report := (report st)\<lparr>functionReports :=
                       (functionReports (report st))[i := f (functionReports (report st) ! i)]\<rparr>\<rparr>)"

definition addLogical :: "int \<Rightarrow> function_report \<Rightarrow> function_report" where
  "addLogical amount r = r\<lparr>sloc := (sloc r)\<lparr>logical := logical (sloc r) + amount\<rparr>\<rparr>"

definition addCyclomatic :: "int \<Rightarrow> function_report \<Rightarrow> function_report" where
  "addCyclomatic amount r = r\<lparr>cyclomatic := cyclomatic r + amount\<rparr>"

definition incrementLogicalSloc :: "int \<Rightarrow> analysis \<Rightarrow> analysis" where
  "incrementLogicalSloc amount st = onCurrent (addLogical amount) (onAggregate (addLogical amount) st)"

definition incrementCyclomatic :: "int \<Rightarrow> analysis \<Rightarrow> analysis" where
  "incrementCyclomatic amount st =
     onCurrent (addCyclomatic amount) (onAggregate (addCyclomatic amount) st)"

definition incrementCounter ::
  "'n \<Rightarrow> 'n amount \<Rightarrow> (int \<Rightarrow> analysis \<Rightarrow> analysis) \<Rightarrow> analysis \<Rightarrow> analysis" where
  "incrementCounter node amount incrementFn st =
     (case amount of
        Literal a \<Rightarrow> incrementFn a st
      | Computed f \<Rightarrow> incrementFn (f node) st
      | NoAmount \<Rightarrow> st)"

definition processLloc :: "'n \<Rightarrow> 'n syntax_descriptor \<Rightarrow> analysis \<Rightarrow> analysis" where
  "processLloc node syn st = incrementCounter node (s_lloc syn) incrementLogicalSloc st"

definition processCyclomatic :: "'n \<Rightarrow> 'n syntax_descriptor \<Rightarrow> analysis \<Rightarrow> analysis" where
  "processCyclomatic node syn st = incrementCounter node (s_cyclomatic syn) incrementCyclomatic st"

definition halsteadItemEncountered :: "string list \<Rightarrow> metric \<Rightarrow> string \<Rightarrow> analysis \<Rightarrow> analysis" where
  "halsteadItemEncountered own m ident st =
     onAggregate (\<lambda>r. incrementHalsteadItems own r m ident)
       (onCurrent (\<lambda>r. incrementHalsteadItems own r m ident) st)"

definition descriptors :: "metric \<Rightarrow> 'n syntax_descriptor \<Rightarrow> 'n halstead_descriptor list option" where
  "descriptors m syn = (case m of Operators \<Rightarrow> s_operators syn | Operands \<Rightarrow> s_operands syn)"

definition processHalsteadMetric ::
  "string list \<Rightarrow> 'n \<Rightarrow> 'n syntax_descriptor \<Rightarrow> metric \<Rightarrow> analysis \<Rightarrow> analysis" where
  "processHalsteadMetric own node syn m st =
     (case descriptors m syn of
        None \<Rightarrow> st
      | Some ds \<Rightarrow>
          foldl (\<lambda>st s.
                   (let ident = (case h_identifier s of Inl str \<Rightarrow> str | Inr f \<Rightarrow> f node)
                    in if (case h_filter s of None \<Rightarrow> True | Some f \<Rightarrow> f node)
                       then halsteadItemEncountered own m ident st else st))
            st ds)"

definition processOperators :: "string list \<Rightarrow> 'n \<Rightarrow> 'n syntax_descriptor \<Rightarrow> analysis \<Rightarrow> analysis" where
  "processOperators own node syn st = processHalsteadMetric own node syn Operators st"

definition processOperands :: "string list \<Rightarrow> 'n \<Rightarrow> 'n syntax_descriptor \<Rightarrow> analysis \<Rightarrow> analysis" where
  "processOperands own node syn st = processHalsteadMetric own node syn Operands st"

text \<open>
  \<open>processDependencies\<close> returns whether the descriptor has a \<open>dependencies\<close> function;
  \<open>concat\<close> appends the elements of an array and appends any other object as one element.
\<close>

definition processDependencies ::
  "'n \<Rightarrow> 'n syntax_descriptor \<Rightarrow> bool \<Rightarrow> analysis \<Rightarrow> bool \<times> analysis" where
  "processDependencies node syn clear st =
     (case s_dependencies syn of
        Some f \<Rightarrow>
          (let st1 = st\<lparr>dependencyCalls := dependencyCalls st @ [clear]\<rparr>;
               ds = dependencies (report st1)
           in (True,
               case f node clear of
                 DependencyObject d \<Rightarrow> st1\<lparr>report := (report st1)\<lparr>dependencies := ds @ [d]\<rparr>\<rparr>
               | DependencyArray ds' \<Rightarrow> st1\<lparr>report := (report st1)\<lparr>dependencies := ds @ ds'\<rparr>\<rparr>
               | NotAnObject \<Rightarrow> st1))
      | None \<Rightarrow> (False, st))"

definition processNode :: "string list \<Rightarrow> 'n \<Rightarrow> 'n syntax_descriptor \<Rightarrow> analysis \<Rightarrow> analysis" where
  "processNode own node syn st =
     (let st1 = processLloc node syn st;
          st2 = processCyclomatic node syn st1;
          st3 = processOperators own node syn st2;
          st4 = processOperands own node syn st3;
          (called, st5) = processDependencies node syn (clearDependencies st4) st4
      in if called then st5\<lparr>clearDependencies := False\<rparr> else st5)"

definition pushScope :: "string option \<Rightarrow> (int \<times> int) option \<Rightarrow> int \<Rightarrow> analysis \<Rightarrow> analysis" where
  "pushScope nm loc parameterCount st =
     (let r = report st;
          i = length (functionReports r)
      in st\<lparr>currentReport := Some i,
            report := r\<lparr>functionReports := functionReports r @ [createFunctionReport nm loc parameterCount],
                        aggregate := (aggregate r)\<lparr>params := params (aggregate r) + parameterCount\<rparr>\<rparr>,
            scopeStack := scopeStack st @ [i]\<rparr>)"

definition popScope :: "analysis \<Rightarrow> analysis" where
  "popScope st =
     (let stack = butlast (scopeStack st)
      in st\<lparr>scopeStack := stack,
            currentReport := (if length stack > 0 then Some (last stack) else None)\<rparr>)"

text \<open>
  The walker calls the three callbacks in some order: a walk is the list of these calls.
\<close>

datatype 'n event =
  CreateScope "string option" "(int \<times> int) option" int
| PopScope
| ProcessNode 'n "'n syntax_descriptor"

fun callback :: "string list \<Rightarrow> analysis \<Rightarrow> 'n event \<Rightarrow> analysis" where
  "callback own st (CreateScope nm loc parameterCount) = pushScope nm loc parameterCount st"
| "callback own st PopScope = popScope st"
| "callback own st (ProcessNode node syn) = processNode own node syn st"

definition initialAnalysis :: "(int \<times> int) option \<Rightarrow> analysis" where
  "initialAnalysis loc =
     \<lparr>report = createReport loc, currentReport = None, scopeStack = [],
      clearDependencies = True, dependencyCalls = []\<rparr>"

definition walk :: "string list \<Rightarrow> (int \<times> int) option \<Rightarrow> 'n event list \<Rightarrow> analysis" where
  "walk own loc evs = foldl (callback own) (initialAnalysis loc) evs"

subsection \<open>Metric finalisation\<close>

datatype error = InvalidInput | ZeroCyclomatic

record settings =
  forin :: bool
  logicalor :: bool
  newmi :: bool
  switchcase :: bool
  trycatch :: bool

definition defaultSettings :: settings where
  "defaultSettings =
     \<lparr>forin = False, logicalor = True, newmi = False, switchcase = True, trycatch = False\<rparr>"

definition natnum :: "nat \<Rightarrow> jsnum" where
  "natnum n = Fin (real n)"

definition calculateCyclomaticDensity :: "function_report \<Rightarrow> function_report" where
  "calculateCyclomaticDensity data =
     data\<lparr>cyclomaticDensity :=
            Some (jmul (jdiv (num (cyclomatic data)) (num (logical (sloc data)))) (Fin 100))\<rparr>"

definition nilHalsteadMetrics :: "halstead_state \<Rightarrow> halstead_state" where
  "nilHalsteadMetrics data =
     data\<lparr>vocabulary := Some (Fin 0), difficulty := Some (Fin 0), volume := Some (Fin 0),
           effort := Some (Fin 0), bugs := Some (Fin 0), time := Some (Fin 0)\<rparr>"

definition calculateHalsteadMetrics :: "halstead_state \<Rightarrow> halstead_state" where
  "calculateHalsteadMetrics data0 =
     (let len = total (operators data0) + total (operands data0);
          data = data0\<lparr>h_length := Some (natnum len)\<rparr>
      in if len = 0 then nilHalsteadMetrics data
         else
           (let voc = natnum (distinct (operators data) + distinct (operands data));
                dif = jmul (jdiv (natnum (distinct (operators data))) (Fin 2))
                        (if distinct (operands data) = 0 then Fin 1
                         else jdiv (natnum (total (operands data)))
                                (natnum (distinct (operands data))));
                vol = jmul (natnum len) (jdiv (jlog voc) (jlog (Fin 2)));
                eff = jmul dif vol
            in data\<lparr>vocabulary := Some voc, difficulty := Some dif, volume := Some vol,
                     effort := Some eff, bugs := Some (jdiv vol (Fin 3000)),
                     time := Some (jdiv eff (Fin 18))\<rparr>))"

text \<open>
  The array \<open>sums\<close> and the object \<open>indices\<close> of \<open>calculateMetrics\<close>: position 0
  is \<open>loc\<close>, 1 is \<open>cyclomatic\<close>, 2 is \<open>effort\<close>, 3 is \<open>params\<close>.
\<close>

definition sumMaintainabilityMetrics :: "jsnum list \<Rightarrow> function_report \<Rightarrow> jsnum list" where
  "sumMaintainabilityMetrics sums0 data =
     [jadd (sums0 ! 0) (num (logical (sloc data))),
      jadd (sums0 ! 1) (num (cyclomatic data)),
      jadd (sums0 ! 2) (toNumber (effort (halstead data))),
      jadd (sums0 ! 3) (num (params data))]"

definition calculateMaintainabilityIndex :: "jsnum \<Rightarrow> jsnum \<Rightarrow> jsnum \<Rightarrow> bool \<Rightarrow> error + jsnum" where
  "calculateMaintainabilityIndex averageEffort averageCyclomatic averageLoc newmi_flag =
     (if averageCyclomatic = Fin 0 then Inl ZeroCyclomatic
      else
        (let m0 = jsub (jsub (jsub (Fin 171) (jmul (Fin (342 / 100)) (jlog averageEffort)))
                          (jmul (Fin (23 / 100)) (jlog averageCyclomatic)))
                    (jmul (Fin (162 / 10)) (jlog averageLoc));
             m1 = (if jgreater m0 (Fin 171) then Fin 171 else m0);
             m2 = (if newmi_flag then jmax (Fin 0) (jdiv (jmul m1 (Fin 100)) (Fin 171)) else m1)
         in Inr m2))"

text \<open>What the first \<open>forEach\<close> of \<open>calculateMetrics\<close> does to one function report.\<close>

definition finaliseReport :: "function_report \<Rightarrow> function_report" where
  "finaliseReport functionReport =
     (let r = calculateCyclomaticDensity functionReport
      in r\<lparr>halstead := calculateHalsteadMetrics (halstead r)\<rparr>)"

text \<open>
  \<open>calculateMetrics\<close> works on the module-level \<open>report\<close>; the model takes it and
  returns it. The \<open>forEach\<close> finalises and sums one function report after the other:
  that is the finalisation of all of them followed by the sum over all of them.
\<close>

definition calculateMetrics :: "settings \<Rightarrow> module_report \<Rightarrow> error + module_report" where
  "calculateMetrics st r =
     (let count = length (functionReports r);
          fs = map finaliseReport (functionReports r);
          sums0 = foldl sumMaintainabilityMetrics [Fin 0, Fin 0, Fin 0, Fin 0] fs;
          agg = finaliseReport (aggregate r);
          sums1 = (if count = 0 then sumMaintainabilityMetrics sums0 agg else sums0);
          count' = (if count = 0 then 1 else count);
          averages = map (\<lambda>s. jdiv s (natnum count')) sums1
      in case calculateMaintainabilityIndex (averages ! 2) (averages ! 1) (averages ! 0) (newmi st) of
           Inl e \<Rightarrow> Inl e
         | Inr mi \<Rightarrow>
             Inr (r\<lparr>functionReports := fs, aggregate := agg, maintainability := Some mi,
                    m_cyclomatic := Some (averages ! 1), m_effort := Some (averages ! 2),
                    m_loc := Some (averages ! 0), m_params := Some (averages ! 3)\<rparr>))"

text \<open>
  \<open>analyse\<close>. The syntax tree is an object with an optional \<open>loc\<close>; the walker's
  \<open>walk\<close> method, given the tree and the settings, makes a list of callback calls. The
  three assertions on the arguments hold by the types.
\<close>

record 'a ast =
  loc :: "(int \<times> int) option"
  tree :: 'a

definition analyse ::
  "string list \<Rightarrow> 'a ast \<Rightarrow> ('a ast \<Rightarrow> settings \<Rightarrow> 'n event list) \<Rightarrow> settings option
     \<Rightarrow> error + module_report" where
  "analyse own a walker options =
     (let st = (case options of Some opts \<Rightarrow> opts | None \<Rightarrow> defaultSettings)
      in calculateMetrics st (report (walk own (loc a) (walker a st))))"

section \<open>Properties of the project analyser\<close>

subsection \<open>Non-relative CommonJS dependencies\<close>

lemma charAt_prefix2: "prefix [a, b] s \<longleftrightarrow> charAt s 0 = Some a \<and> charAt s 1 = Some b"
  by (cases s; cases "tl s") (auto simp: charAt_def)

lemma charAt_prefix3:
  "prefix [a, b, c] s \<longleftrightarrow> charAt s 0 = Some a \<and> charAt s 1 = Some b \<and> charAt s 2 = Some c"
  by (cases s; cases "tl s"; cases "tl (tl s)") (auto simp: charAt_def)

lemma isInternal_iff_prefix:
  "isInternalCommonJSDependency P d \<longleftrightarrow>
     prefix [CHR ''.'', sep P] (dep_path d) \<or> prefix [CHR ''.'', CHR ''.'', sep P] (dep_path d)"
  unfolding isInternalCommonJSDependency_def charAt_prefix2 charAt_prefix3 by blast

lemma doesDependencyExist_iff:
  "doesDependencyExist P from to \<longleftrightarrow>
     (\<exists>d \<in> set (dependencies from). checkDependency P (path from) d (path to))"
proof -
  have "foldl (\<lambda>result d. if result = False then checkDependency P f d t else True) b ds
          \<longleftrightarrow> b \<or> (\<exists>d \<in> set ds. checkDependency P f d t)" for b ds f t
    by (induction ds arbitrary: b) auto
  then show ?thesis by (simp add: doesDependencyExist_def)
qed

text \<open>
  The gate in the words of the specification: a record of type \<open>CommonJS\<close> whose path
  begins neither with a dot and the separator nor with two dots and the separator.
\<close>

definition nonRelativeCommonJS :: "path_host \<Rightarrow> dependency \<Rightarrow> bool" where
  "nonRelativeCommonJS P d \<longleftrightarrow>
     dep_type d = ''CommonJS'' \<and>
     \<not> (prefix [CHR ''.'', sep P] (dep_path d) \<or> prefix [CHR ''.'', CHR ''.'', sep P] (dep_path d))"

text \<open>A module without its non-relative CommonJS records.\<close>

definition dropNonRelative :: "path_host \<Rightarrow> project_module \<Rightarrow> project_module" where
  "dropNonRelative P m = m\<lparr>dependencies := filter (\<lambda>d. \<not> nonRelativeCommonJS P d) (dependencies m)\<rparr>"

lemma nonRelative_unresolved: "nonRelativeCommonJS P d \<Longrightarrow> \<not> checkDependency P from d to"
  by (simp add: nonRelativeCommonJS_def checkDependency_def isCommonJSDependency_def
      isInternal_iff_prefix)

lemma doesDependencyExist_dropNonRelative:
  "doesDependencyExist P (dropNonRelative P m) (dropNonRelative P m') = doesDependencyExist P m m'"
  unfolding doesDependencyExist_iff
  by (auto simp: dropNonRelative_def dest: nonRelative_unresolved)

text \<open>
  Claim C8. A dependency record of type \<open>CommonJS\<close> whose path does not begin with
  \<open>./\<close> or \<open>../\<close> resolves to no module, whatever the two module paths are; removing
  such records from every module leaves every cell of the adjacency matrix unchanged;
  and a record of any other type goes straight to the path comparison.
\<close>

theorem nonrelative_commonjs_no_edge:
  "(nonRelativeCommonJS P d \<longrightarrow> checkDependency P from d to = False) \<and>
   (x < length rs \<and> y < length rs \<longrightarrow>
      getAdjacencyMatrixValue P (map (dropNonRelative P) rs) x y = getAdjacencyMatrixValue P rs x y) \<and>
   (dep_type d' \<noteq> ''CommonJS'' \<longrightarrow> checkDependency P from d' to = isDependency P from d' to)"
proof (intro conjI impI)
  assume "nonRelativeCommonJS P d"
  then show "checkDependency P from d to = False"
    using nonRelative_unresolved by simp
next
  assume "x < length rs \<and> y < length rs"
  then show "getAdjacencyMatrixValue P (map (dropNonRelative P) rs) x y
               = getAdjacencyMatrixValue P rs x y"
    by (simp add: getAdjacencyMatrixValue_def doesDependencyExist_dropNonRelative)
next
  assume "dep_type d' \<noteq> ''CommonJS''"
  then show "checkDependency P from d' to = isDependency P from d' to"
    by (simp add: checkDependency_def isCommonJSDependency_def)
qed

lemmas posix_simps = posix_def posix_resolve_def posix_normalize_def norm_step_def
  posix_dirname_def posix_extname_def posix_join_def

text \<open>A module report with a path and dependencies, for concrete projects.\<close>

definition blankFunctionReport :: function_report where
  "blankFunctionReport =
     \<lparr>cyclomatic = 1,
      halstead = \<lparr>operands = \<lparr>distinct = 0, identifiers = [], total = 0\<rparr>,
                  operators = \<lparr>distinct = 0, identifiers = [], total = 0\<rparr>,
                  h_length = None, vocabulary = None, difficulty = None, volume = None,
                  effort = None, bugs = None, time = None\<rparr>,
      name = None, params = 0, sloc = \<lparr>logical = 0, physical = None\<rparr>, line = None,
      cyclomaticDensity = None\<rparr>"

definition moduleAt :: "string \<Rightarrow> dependency list \<Rightarrow> project_module" where
  "moduleAt p ds =
     \<lparr>aggregate = blankFunctionReport, dependencies = ds, functionReports = [],
      maintainability = Some (Fin 171), m_loc = Some (Fin 0), m_cyclomatic = Some (Fin 1),
      m_effort = Some (Fin 0), m_params = Some (Fin 0), path = p\<rparr>"

theorem nonrelative_commonjs_no_edge_witness:
  "nonRelativeCommonJS (posix ''/w'') \<lparr>dep_type = ''CommonJS'', dep_path = ''lodash''\<rparr> \<and>
   checkDependency (posix ''/w'') ''a.js''
      \<lparr>dep_type = ''CommonJS'', dep_path = ''lodash''\<rparr> ''lodash.js'' = False \<and>
   getAdjacencyMatrixValue (posix ''/w'')
      [moduleAt ''a.js'' [\<lparr>dep_type = ''CommonJS'', dep_path = ''lodash''\<rparr>],
       moduleAt ''lodash.js'' []] 0 1 = 0 \<and>
   checkDependency (posix ''/w'') ''a.js''
      \<lparr>dep_type = ''amd'', dep_path = ''lodash''\<rparr> ''lodash.js'' = True"
proof -
  let ?P = "posix ''/w''"
  let ?d = "\<lparr>dep_type = ''CommonJS'', dep_path = ''lodash''\<rparr>"
  let ?d' = "\<lparr>dep_type = ''amd'', dep_path = ''lodash''\<rparr>"
  let ?rs = "[moduleAt ''a.js'' [?d], moduleAt ''lodash.js'' []]"
  have nr: "nonRelativeCommonJS ?P ?d"
    by (simp add: nonRelativeCommonJS_def posix_def)
  have ty: "dep_type ?d' \<noteq> ''CommonJS''" by simp
  have dep: "isDependency ?P ''a.js'' ?d' ''lodash.js''"
    by (simp add: isDependency_def posix_simps)
  have stripped: "getAdjacencyMatrixValue ?P (map (dropNonRelative ?P) ?rs) 0 1 = 0"
    using nr by (simp add: getAdjacencyMatrixValue_def doesDependencyExist_def
        dropNonRelative_def moduleAt_def)
  note inst = nonrelative_commonjs_no_edge [of ?P ?d "''a.js''" "''lodash.js''" 0 ?rs 1 ?d']
  from inst nr ty dep stripped show ?thesis by simp
qed

subsection \<open>The empty project\<close>

text \<open>
  Claim C9 (amended). For an empty list of reports \<open>processResults\<close> returns an empty
  adjacency matrix, and \<open>firstOrderDensity\<close> and the five project averages are exactly 0:
  \<open>percentify\<close> returns 0 for the limit 0, and the averages divide by 1. When
  \<open>noCoreSize\<close> is false the visibility matrix is empty too and \<open>changeCost\<close> and
  \<open>coreSize\<close> are 0; when \<open>noCoreSize\<close> is true these three fields are not set.
\<close>

theorem empty_project_results:
  "processResults P (initialResult []) noCoreSize =
     (if noCoreSize
      then \<lparr>reports = [], adjacencyMatrix = Some [], firstOrderDensity = Some 0,
            visibilityMatrix = None, changeCost = None, coreSize = None,
            p_cyclomatic = Some (Fin 0), p_effort = Some (Fin 0), p_loc = Some (Fin 0),
            p_maintainability = Some (Fin 0), p_params = Some (Fin 0)\<rparr>
      else \<lparr>reports = [], adjacencyMatrix = Some [], firstOrderDensity = Some 0,
            visibilityMatrix = Some [], changeCost = Some 0, coreSize = Some 0,
            p_cyclomatic = Some (Fin 0), p_effort = Some (Fin 0), p_loc = Some (Fin 0),
            p_maintainability = Some (Fin 0), p_params = Some (Fin 0)\<rparr>)
   \<and> percentify v 0 = 0"
  by (simp add: processResults_def initialResult_def createAdjacencyMatrix_def sort_by_def
      percentifyDensity_def percentify_def count_ones_def createVisibilityMatrix_def
      adjacencyToDistMatrix_def loop_k_def toVisibility_def count_finite_def setCoreSize_def
      calculateAverages_def sum_field_def num_def)

text \<open>With \<open>noCoreSize\<close> true the change cost, the core size and the visibility matrix stay unset.\<close>

theorem empty_project_counterexample:
  "changeCost (processResults (posix ''/w'') (initialResult []) True) = None \<and>
   coreSize (processResults (posix ''/w'') (initialResult []) True) = None \<and>
   visibilityMatrix (processResults (posix ''/w'') (initialResult []) True) = None"
  by (simp add: processResults_def initialResult_def createAdjacencyMatrix_def
      calculateAverages_def Let_def)

subsection \<open>Two modules\<close>





lemma createVisibilityMatrix_eq:
  assumes "adjacencyMatrix r = Some A" and "loop_k (length A) (adjacencyToDistMatrix A) = D"
  shows "createVisibilityMatrix r =
           r\<lparr>visibilityMatrix := Some (toVisibility D),
             changeCost := Some (percentifyDensity (count_finite D) (toVisibility D))\<rparr>"
proof -
  have "length (adjacencyToDistMatrix A) = length A"
    by (simp add: adjacencyToDistMatrix_def)
  then show ?thesis
    using assms by (simp add: createVisibilityMatrix_def Let_def)
qed














subsection \<open>The visibility matrix is reachability\<close>

text \<open>The edges of the graph of an adjacency matrix: the cells equal to 1.\<close>

definition adjacencyEdges :: "nat list list \<Rightarrow> (nat \<times> nat) set" where
  "adjacencyEdges A = {(a, b). a < length A \<and> b < length A \<and> A ! a ! b = 1}"

text \<open>A matrix with \<open>n\<close> rows of length \<open>n\<close>.\<close>

definition square :: "nat \<Rightarrow> 'a list list \<Rightarrow> bool" where
  "square n D \<longleftrightarrow> length D = n \<and> (\<forall>a < n. length (D ! a) = n)"

text \<open>The cells of a distance matrix that hold a finite distance.\<close>

definition finite_cells :: "nat \<Rightarrow> enat list list \<Rightarrow> (nat \<times> nat) set" where
  "finite_cells n D = {(a, b). a < n \<and> b < n \<and> D ! a ! b < \<infinity>}"

text \<open>
  What one update of the innermost loop does to the set of finite cells: the cell
  \<open>(i, j)\<close> becomes finite when \<open>(i, k)\<close> and \<open>(k, j)\<close> are.
\<close>

definition close_step :: "nat \<Rightarrow> nat \<Rightarrow> nat \<Rightarrow> (nat \<times> nat) set \<Rightarrow> (nat \<times> nat) set" where
  "close_step k i j F = (if (i, k) \<in> F \<and> (k, j) \<in> F then insert (i, j) F else F)"

text \<open>Paths of \<open>R\<close> whose inner vertices all lie in \<open>S\<close>.\<close>

inductive via :: "(nat \<times> nat) set \<Rightarrow> nat set \<Rightarrow> nat \<Rightarrow> nat \<Rightarrow> bool" for R S where
  edge: "(i, j) \<in> R \<Longrightarrow> via R S i j"
| hop: "(i, m) \<in> R \<Longrightarrow> m \<in> S \<Longrightarrow> via R S m j \<Longrightarrow> via R S i j"

lemma square_nth: "square n D \<Longrightarrow> a < n \<Longrightarrow> length (D ! a) = n"
  by (simp add: square_def)

lemma square_relax: "square n D \<Longrightarrow> square n (relax k i j D)"
proof -
  assume sq: "square n D"
  have "length (D[i := (D ! i)[j := v]] ! a) = n" if "a < n" for a v
    using sq that by (cases "a = i") (auto simp: square_def)
  with sq show ?thesis
    by (simp add: square_def relax_def)
qed

lemma relax_cell:
  assumes "square n D" "a < n" "b < n"
  shows "relax k i j D ! a ! b =
           (if a = i \<and> b = j \<and> D ! i ! j > D ! i ! k + D ! k ! j
            then D ! i ! k + D ! k ! j else D ! a ! b)"
  using assms by (cases "a = i") (auto simp: relax_def square_def nth_list_update)

lemma finite_cells_relax:
  assumes "square n D" "i < n" "j < n" "k < n"
  shows "finite_cells n (relax k i j D) = close_step k i j (finite_cells n D)"
proof -
  have "(a, b) \<in> finite_cells n (relax k i j D) \<longleftrightarrow> (a, b) \<in> close_step k i j (finite_cells n D)"
    for a b
  proof (cases "a < n \<and> b < n")
    case True
    then show ?thesis
      using assms relax_cell [OF assms(1), of a b k i j]
      by (cases "D ! i ! k"; cases "D ! k ! j"; cases "D ! i ! j")
         (auto simp: finite_cells_def close_step_def)
  next
    case False
    then show ?thesis
      using assms by (auto simp: finite_cells_def close_step_def)
  qed
  then show ?thesis by auto
qed


lemma loop_j_cells:
  assumes "square n D" "i < n" "k < n" "set js \<subseteq> {..<n}"
  shows "square n (foldl (\<lambda>D j. relax k i j D) D js) \<and>
         finite_cells n (foldl (\<lambda>D j. relax k i j D) D js)
           = foldl (\<lambda>F j. close_step k i j F) (finite_cells n D) js"
  using assms
  by (induction js arbitrary: D) (simp_all add: square_relax finite_cells_relax)

lemma loop_i_cells:
  assumes "square n D" "k < n" "set is \<subseteq> {..<n}"
  shows "square n (foldl (\<lambda>D i. loop_j n k i D) D is) \<and>
         finite_cells n (foldl (\<lambda>D i. loop_j n k i D) D is)
           = foldl (\<lambda>F i. foldl (\<lambda>F j. close_step k i j F) F [0..<n]) (finite_cells n D) is"
  using assms
proof (induction "is" arbitrary: D)
  case Nil
  then show ?case by simp
next
  case (Cons i "is")
  have all: "set [0..<n] \<subseteq> {..<n}" by auto
  from Cons.prems have "i < n" by simp
  from loop_j_cells [OF Cons.prems(1) this Cons.prems(2) all]
  have "square n (loop_j n k i D)"
    and "finite_cells n (loop_j n k i D) = foldl (\<lambda>F j. close_step k i j F) (finite_cells n D) [0..<n]"
    by (simp_all add: loop_j_def)
  with Cons show ?case by simp
qed

lemma loop_k_cells:
  assumes "square n D" "set ks \<subseteq> {..<n}"
  shows "square n (foldl (\<lambda>D k. loop_i n k D) D ks) \<and>
         finite_cells n (foldl (\<lambda>D k. loop_i n k D) D ks)
           = foldl (\<lambda>F k. foldl (\<lambda>F i. foldl (\<lambda>F j. close_step k i j F) F [0..<n]) F [0..<n])
               (finite_cells n D) ks"
  using assms
proof (induction ks arbitrary: D)
  case Nil
  then show ?case by simp
next
  case (Cons k ks)
  have all: "set [0..<n] \<subseteq> {..<n}" by auto
  from Cons.prems have "k < n" by simp
  from loop_i_cells [OF Cons.prems(1) this all]
  have "square n (loop_i n k D)"
    and "finite_cells n (loop_i n k D)
           = foldl (\<lambda>F i. foldl (\<lambda>F j. close_step k i j F) F [0..<n]) (finite_cells n D) [0..<n]"
    by (simp_all add: loop_i_def)
  with Cons show ?case by simp
qed

text \<open>The closure steps on sets of pairs.\<close>

definition row_pass :: "nat \<Rightarrow> nat \<Rightarrow> nat list \<Rightarrow> (nat \<times> nat) set \<Rightarrow> (nat \<times> nat) set" where
  "row_pass k i js F = foldl (\<lambda>F j. close_step k i j F) F js"

definition phase :: "nat \<Rightarrow> nat \<Rightarrow> nat list \<Rightarrow> (nat \<times> nat) set \<Rightarrow> (nat \<times> nat) set" where
  "phase n k is F = foldl (\<lambda>F i. row_pass k i [0..<n] F) F is"

definition phases :: "nat \<Rightarrow> nat list \<Rightarrow> (nat \<times> nat) set \<Rightarrow> (nat \<times> nat) set" where
  "phases n ks F = foldl (\<lambda>F k. phase n k [0..<n] F) F ks"

lemma close_step_mono: "F \<subseteq> close_step k i j F"
  by (auto simp: close_step_def)

lemma close_step_sound: "F \<subseteq> R\<^sup>+ \<Longrightarrow> close_step k i j F \<subseteq> R\<^sup>+"
  by (auto simp: close_step_def intro: trancl_trans)

lemma row_pass_mono: "F \<subseteq> row_pass k i js F"
  unfolding row_pass_def
proof (induction js arbitrary: F)
  case (Cons j js)
  have "F \<subseteq> close_step k i j F" by (rule close_step_mono)
  also have "\<dots> \<subseteq> foldl (\<lambda>F j. close_step k i j F) (close_step k i j F) js" by (rule Cons)
  finally show ?case by simp
qed simp

lemma row_pass_sound: "F \<subseteq> R\<^sup>+ \<Longrightarrow> row_pass k i js F \<subseteq> R\<^sup>+"
  unfolding row_pass_def
  by (induction js arbitrary: F) (simp_all add: close_step_sound)

lemma row_pass_complete:
  "(i, k) \<in> F \<Longrightarrow> (k, j) \<in> F \<Longrightarrow> j \<in> set js \<Longrightarrow> (i, j) \<in> row_pass k i js F"
proof (induction js arbitrary: F)
  case Nil
  then show ?case by simp
next
  case (Cons j' js)
  let ?F = "close_step k i j' F"
  have sub: "F \<subseteq> ?F" by (rule close_step_mono)
  have eq: "row_pass k i (j' # js) F = row_pass k i js ?F"
    by (simp add: row_pass_def)
  show ?case
  proof (cases "j = j'")
    case True
    with Cons.prems have "(i, j) \<in> ?F" by (simp add: close_step_def)
    then show ?thesis using row_pass_mono [of ?F k i js] eq by auto
  next
    case False
    with Cons.prems have "j \<in> set js" by simp
    moreover have "(i, k) \<in> ?F" "(k, j) \<in> ?F" using Cons.prems sub by auto
    ultimately show ?thesis using Cons.IH eq by simp
  qed
qed

lemma phase_mono: "F \<subseteq> phase n k is F"
  unfolding phase_def
proof (induction "is" arbitrary: F)
  case (Cons i "is")
  have "F \<subseteq> row_pass k i [0..<n] F" by (rule row_pass_mono)
  also have "\<dots> \<subseteq> foldl (\<lambda>F i. row_pass k i [0..<n] F) (row_pass k i [0..<n] F) is" by (rule Cons)
  finally show ?case by simp
qed simp

lemma phase_sound: "F \<subseteq> R\<^sup>+ \<Longrightarrow> phase n k is F \<subseteq> R\<^sup>+"
  unfolding phase_def
  by (induction "is" arbitrary: F) (simp_all add: row_pass_sound)

lemma phase_complete:
  "(i, k) \<in> F \<Longrightarrow> (k, j) \<in> F \<Longrightarrow> i \<in> set is \<Longrightarrow> j < n \<Longrightarrow> (i, j) \<in> phase n k is F"
proof (induction "is" arbitrary: F)
  case Nil
  then show ?case by simp
next
  case (Cons i' "is")
  let ?F = "row_pass k i' [0..<n] F"
  have sub: "F \<subseteq> ?F" by (rule row_pass_mono)
  have eq: "phase n k (i' # is) F = phase n k is ?F"
    by (simp add: phase_def)
  show ?case
  proof (cases "i = i'")
    case True
    with Cons.prems have "(i, j) \<in> ?F" by (simp add: row_pass_complete)
    then show ?thesis using phase_mono [of ?F n k "is"] eq by auto
  next
    case False
    with Cons.prems have "i \<in> set is" by simp
    moreover have "(i, k) \<in> ?F" "(k, j) \<in> ?F" using Cons.prems sub by auto
    ultimately show ?thesis using Cons.IH Cons.prems(4) eq by simp
  qed
qed

lemma phases_sound: "F \<subseteq> R\<^sup>+ \<Longrightarrow> phases n ks F \<subseteq> R\<^sup>+"
  unfolding phases_def
  by (induction ks arbitrary: F) (simp_all add: phase_sound)

lemma via_split:
  "via R (insert k S) i j \<Longrightarrow> via R S i j \<or> (via R S i k \<and> via R S k j)"
proof (induction rule: via.induct)
  case (edge i j)
  then show ?case by (simp add: via.edge)
next
  case (hop i m j)
  then show ?case by (auto intro: via.intros)
qed

lemma trancl_via:
  assumes "(i, j) \<in> R\<^sup>+" and "\<And>a b. (a, b) \<in> R \<Longrightarrow> b \<in> S"
  shows "via R S i j"
  using assms(1)
  by (induction rule: converse_trancl_induct) (auto intro: via.intros assms(2))

lemma phases_complete:
  assumes "R \<subseteq> {..<n} \<times> {..<n}" and "m \<le> n" and "via R {..<m} i j"
  shows "(i, j) \<in> phases n [0..<m] R"
  using assms(2,3)
proof (induction m arbitrary: i j)
  case 0
  from "0.prems"(2) have "(i, j) \<in> R"
    by (cases rule: via.cases) auto
  then show ?case by (simp add: phases_def)
next
  case (Suc m)
  let ?F = "phases n [0..<m] R"
  have eq: "phases n [0..<Suc m] R = phase n m [0..<n] ?F"
    by (simp add: phases_def)
  have bound: "a < n \<and> b < n" if "via R S a b" for a b S
    using that assms(1) by (induction rule: via.induct) auto
  have "{..<Suc m} = insert m {..<m}" by auto
  with Suc.prems have "via R {..<m} i j \<or> (via R {..<m} i m \<and> via R {..<m} m j)"
    using via_split by simp
  then show ?case
  proof
    assume "via R {..<m} i j"
    then have "(i, j) \<in> ?F" using Suc by simp
    then show ?thesis using phase_mono [of ?F n m "[0..<n]"] eq by auto
  next
    assume a: "via R {..<m} i m \<and> via R {..<m} m j"
    then have "(i, m) \<in> ?F" "(m, j) \<in> ?F" using Suc by simp_all
    moreover have "i < n" "j < n" using a bound by blast+
    ultimately show ?thesis using phase_complete [of i m ?F j "[0..<n]" n] eq by simp
  qed
qed

lemma phases_closure:
  assumes "R \<subseteq> {..<n} \<times> {..<n}"
  shows "phases n [0..<n] R = R\<^sup>+"
proof
  show "phases n [0..<n] R \<subseteq> R\<^sup>+"
    by (rule phases_sound) auto
  show "R\<^sup>+ \<subseteq> phases n [0..<n] R"
  proof
    fix p assume "p \<in> R\<^sup>+"
    then obtain i j where p: "p = (i, j)" "(i, j) \<in> R\<^sup>+" by (cases p) auto
    then have "via R {..<n} i j"
      using assms by (intro trancl_via) auto
    then show "p \<in> phases n [0..<n] R"
      using phases_complete [OF assms] p by simp
  qed
qed


lemma loop_k_closure:
  assumes "square n D"
  shows "square n (loop_k n D) \<and> finite_cells n (loop_k n D) = (finite_cells n D)\<^sup>+"
proof -
  have all: "set [0..<n] \<subseteq> {..<n}" by auto
  have sub: "finite_cells n D \<subseteq> {..<n} \<times> {..<n}"
    by (auto simp: finite_cells_def)
  from loop_k_cells [OF assms all] phases_closure [OF sub] show ?thesis
    by (simp add: loop_k_def phases_def phase_def row_pass_def)
qed

lemma square_dist: "square n A \<Longrightarrow> square n (adjacencyToDistMatrix A)"
  by (simp add: square_def adjacencyToDistMatrix_def)

lemma dist_cell:
  "square n A \<Longrightarrow> a < n \<Longrightarrow> b < n \<Longrightarrow>
   adjacencyToDistMatrix A ! a ! b =
     (if a = b then 1 else if A ! a ! b = 0 then \<infinity> else enat (A ! a ! b))"
  by (simp add: square_def adjacencyToDistMatrix_def)

lemma finite_cells_dist:
  assumes "square n A" and "\<forall>a < n. \<forall>b < n. A ! a ! b \<le> 1"
  shows "finite_cells n (adjacencyToDistMatrix A) = {(a, a) |a. a < n} \<union> adjacencyEdges A"
proof -
  have len: "length A = n" using assms(1) by (simp add: square_def)
  have one: "A ! a ! b = 1 \<longleftrightarrow> A ! a ! b \<noteq> 0" if "a < n" "b < n" for a b
    using assms(2) that by (metis le_neq_implies_less less_one zero_neq_one)
  have "(a, b) \<in> finite_cells n (adjacencyToDistMatrix A)
          \<longleftrightarrow> (a, b) \<in> {(a, a) |a. a < n} \<union> adjacencyEdges A" for a b
  proof (cases "a < n \<and> b < n")
    case True
    then show ?thesis
      using dist_cell [OF assms(1), of a b] one [of a b]
      by (cases "A ! a ! b = 0") (auto simp: finite_cells_def adjacencyEdges_def len one_enat_def)
  next
    case False
    then show ?thesis
      by (auto simp: finite_cells_def adjacencyEdges_def len)
  qed
  then show ?thesis by auto
qed

lemma reach_off_diagonal:
  assumes "i \<noteq> j"
  shows "(i, j) \<in> ({(a, a) |a. a < n} \<union> E)\<^sup>+ \<longleftrightarrow> (i, j) \<in> E\<^sup>+"
proof
  assume "(i, j) \<in> ({(a, a) |a. a < n} \<union> E)\<^sup>+"
  then have "(i, j) \<in> E\<^sup>*"
  proof (induction rule: trancl_induct)
    case (base y)
    then show ?case by auto
  next
    case (step y z)
    then show ?case by auto
  qed
  with assms show "(i, j) \<in> E\<^sup>+"
    by (auto dest: rtranclD)
next
  assume "(i, j) \<in> E\<^sup>+"
  then show "(i, j) \<in> ({(a, a) |a. a < n} \<union> E)\<^sup>+"
    by (rule trancl_mono) simp
qed

lemma toVisibility_cell:
  "square n D \<Longrightarrow> i < n \<Longrightarrow> j < n \<Longrightarrow>
   toVisibility D ! i ! j = (if D ! i ! j < \<infinity> \<and> j \<noteq> i then 1 else 0)"
  by (simp add: square_def toVisibility_def)

lemma square_toVisibility: "square n D \<Longrightarrow> square n (toVisibility D)"
  by (simp add: square_def toVisibility_def)

lemma visibility_cells:
  assumes "square n A" and "\<forall>a < n. \<forall>b < n. A ! a ! b \<le> 1" and "i < n" and "j < n"
  shows "toVisibility (loop_k n (adjacencyToDistMatrix A)) ! i ! j =
           (if i \<noteq> j \<and> (i, j) \<in> (adjacencyEdges A)\<^sup>+ then 1 else 0)"
proof -
  let ?D = "loop_k n (adjacencyToDistMatrix A)"
  from loop_k_closure [OF square_dist [OF assms(1)]]
  have sq: "square n ?D"
    and cells: "finite_cells n ?D = ({(a, a) |a. a < n} \<union> adjacencyEdges A)\<^sup>+"
    by (simp_all add: finite_cells_dist [OF assms(1,2)])
  have "?D ! i ! j < \<infinity> \<longleftrightarrow> (i, j) \<in> finite_cells n ?D"
    using assms(3,4) by (simp add: finite_cells_def)
  then show ?thesis
    using toVisibility_cell [OF sq assms(3,4)] cells reach_off_diagonal [of i j n "adjacencyEdges A"]
    by auto
qed

lemma adjacency_square:
  "square (length rs) (map (\<lambda>x. map (\<lambda>y. getAdjacencyMatrixValue P rs x y) [0..<length rs]) [0..<length rs])"
  by (simp add: square_def)

lemma adjacency_01:
  "a < length rs \<Longrightarrow> b < length rs \<Longrightarrow>
   map (\<lambda>x. map (\<lambda>y. getAdjacencyMatrixValue P rs x y) [0..<length rs]) [0..<length rs] ! a ! b \<le> 1"
  by (simp add: getAdjacencyMatrixValue_def)

text \<open>
  Claim C1. In the result of \<open>processResults\<close> with \<open>noCoreSize\<close> false, the
  adjacency and the visibility matrix are square of the size of the sorted reports, and
  for all indices \<open>i\<close> and \<open>j\<close> the cell \<open>visibilityMatrix[i][j]\<close> is 1 exactly when
  \<open>i \<noteq> j\<close> and a path of one or more edges of the adjacency matrix leads from \<open>i\<close> to
  \<open>j\<close>, and 0 otherwise.
\<close>

theorem visibility_is_reachability:
  "let r = processResults P result False; n = length (reports r) in
   \<exists>A V. adjacencyMatrix r = Some A \<and> visibilityMatrix r = Some V \<and>
          length A = n \<and> length V = n \<and>
          (\<forall>i < n. length (V ! i) = n \<and>
             (\<forall>j < n. V ! i ! j = (if i \<noteq> j \<and> (i, j) \<in> (adjacencyEdges A)\<^sup>+ then 1 else 0)))"
proof -
  let ?rs = "sort_by (\<lambda>lhs rhs. comparePaths P (path lhs) (path rhs)) (reports result)"
  let ?n = "length ?rs"
  let ?A = "map (\<lambda>x. map (\<lambda>y. getAdjacencyMatrixValue P ?rs x y) [0..<?n]) [0..<?n]"
  let ?D = "loop_k ?n (adjacencyToDistMatrix ?A)"
  let ?r1 = "createAdjacencyMatrix P result"
  let ?r = "processResults P result False"
  have sqA: "square ?n ?A" by (rule adjacency_square)
  have r1: "reports ?r1 = ?rs" "adjacencyMatrix ?r1 = Some ?A"
    by (simp_all add: createAdjacencyMatrix_def Let_def)
  have lenD: "length (adjacencyToDistMatrix ?A) = ?n"
    by (simp add: adjacencyToDistMatrix_def)
  have vis: "visibilityMatrix (createVisibilityMatrix ?r1) = Some (toVisibility ?D)"
    "reports (createVisibilityMatrix ?r1) = ?rs"
    "adjacencyMatrix (createVisibilityMatrix ?r1) = Some ?A"
    unfolding createVisibilityMatrix_def Let_def r1 option.sel lenD by (simp_all add: r1)
  have r: "reports ?r = ?rs" "adjacencyMatrix ?r = Some ?A"
    "visibilityMatrix ?r = Some (toVisibility ?D)"
    using vis
    by (simp_all add: processResults_def Let_def calculateAverages_def setCoreSize_def
        split: prod.splits)
  have sqV: "square ?n (toVisibility ?D)"
    using loop_k_closure [OF square_dist [OF sqA]] square_toVisibility by blast
  have cell: "toVisibility ?D ! i ! j = (if i \<noteq> j \<and> (i, j) \<in> (adjacencyEdges ?A)\<^sup>+ then 1 else 0)"
    if "i < ?n" "j < ?n" for i j
    using visibility_cells [OF sqA _ that] adjacency_01 [of _ ?rs _ P] by blast
  show ?thesis
    unfolding Let_def r
    using sqA sqV cell by (auto simp: square_def)
qed

lemma upt3: "[0..<3] = [0, Suc 0, 2]"
  by (simp add: upt_rec numeral_3_eq_3 numeral_2_eq_2)

lemma processResults_fields:
  "reports (processResults P res False) = reports (createAdjacencyMatrix P res)"
  "adjacencyMatrix (processResults P res False) = adjacencyMatrix (createAdjacencyMatrix P res)"
  "firstOrderDensity (processResults P res False) = firstOrderDensity (createAdjacencyMatrix P res)"
  "visibilityMatrix (processResults P res False)
     = visibilityMatrix (createVisibilityMatrix (createAdjacencyMatrix P res))"
  "changeCost (processResults P res False)
     = changeCost (createVisibilityMatrix (createAdjacencyMatrix P res))"
  by (simp_all add: processResults_def Let_def calculateAverages_def setCoreSize_def
      createVisibilityMatrix_def split: prod.splits)

text \<open>A chain of three modules: \<open>a.js\<close> requires \<open>./b\<close>, \<open>b.js\<close> requires \<open>./c\<close>.\<close>

definition chain3 :: "project_module list" where
  "chain3 = [moduleAt ''c.js'' [],
             moduleAt ''a.js'' [\<lparr>dep_type = ''CommonJS'', dep_path = ''./b''\<rparr>],
             moduleAt ''b.js'' [\<lparr>dep_type = ''CommonJS'', dep_path = ''./c''\<rparr>]]"

lemma chain3_sorted:
  "sort_by (\<lambda>lhs rhs. comparePaths (posix ''/w'') (path lhs) (path rhs)) chain3
     = [chain3 ! 1, chain3 ! 2, chain3 ! 0]"
  by (simp add: sort_by_def comparePaths_def moduleAt_def posix_def chain3_def)

lemma chain3_deps:
  "doesDependencyExist (posix ''/w'') (chain3 ! 1) (chain3 ! 2)"
  "\<not> doesDependencyExist (posix ''/w'') (chain3 ! 1) (chain3 ! 0)"
  "\<not> doesDependencyExist (posix ''/w'') (chain3 ! 2) (chain3 ! 1)"
  "doesDependencyExist (posix ''/w'') (chain3 ! 2) (chain3 ! 0)"
  "\<not> doesDependencyExist (posix ''/w'') (chain3 ! 0) (chain3 ! 1)"
  "\<not> doesDependencyExist (posix ''/w'') (chain3 ! 0) (chain3 ! 2)"
  by (simp_all add: chain3_def doesDependencyExist_def moduleAt_def checkDependency_def
      isCommonJSDependency_def isInternalCommonJSDependency_def charAt_def isDependency_def
      posix_simps)

lemma chain3_adjacency:
  "adjacencyMatrix (createAdjacencyMatrix (posix ''/w'') (initialResult chain3))
     = Some [[0, 1, 0], [0, 0, 1], [0, 0, 0]]"
proof -
  let ?rs = "[chain3 ! 1, chain3 ! 2, chain3 ! 0]"
  have "map (\<lambda>x. map (\<lambda>y. getAdjacencyMatrixValue (posix ''/w'') ?rs x y) [0..<length ?rs]) [0..<length ?rs]
          = [[0, 1, 0], [0, 0, 1], [0, 0, 0]]"
    using chain3_deps by (simp add: upt3 getAdjacencyMatrixValue_def)
  then show ?thesis
    unfolding createAdjacencyMatrix_def Let_def initialResult_def
    by (simp add: chain3_sorted del: length_Cons list.size)
qed


lemma chain3_distances:
  "loop_k (length [[0, 1, 0], [0, 0, 1], [0, 0, 0 :: nat]])
      (adjacencyToDistMatrix [[0, 1, 0], [0, 0, 1], [0, 0, 0]])
     = [[1, 1, 2], [\<infinity>, 1, 1], [\<infinity>, \<infinity>, 1]]"
proof -
  have d0: "adjacencyToDistMatrix [[0, 1, 0], [0, 0, 1], [0, 0, 0]]
              = [[1, 1, \<infinity>], [\<infinity>, 1, 1], [\<infinity>, \<infinity>, 1]]"
    by (simp add: adjacencyToDistMatrix_def upt3 one_enat_def)
  have p0: "loop_i 3 0 [[1, 1, \<infinity>], [\<infinity>, 1, 1], [\<infinity>, \<infinity>, 1]]
              = [[1, 1, \<infinity>], [\<infinity>, 1, 1], [\<infinity>, \<infinity>, 1]]"
    by (simp add: loop_i_def loop_j_def relax_def upt3 one_enat_def)
  have p1: "loop_i 3 (Suc 0) [[1, 1, \<infinity>], [\<infinity>, 1, 1], [\<infinity>, \<infinity>, 1]]
              = [[1, 1, 2], [\<infinity>, 1, 1], [\<infinity>, \<infinity>, 1]]"
    by (simp add: loop_i_def loop_j_def relax_def upt3 one_enat_def numeral_eq_enat)
  have p2: "loop_i 3 2 [[1, 1, 2], [\<infinity>, 1, 1], [\<infinity>, \<infinity>, 1]]
              = [[1, 1, 2], [\<infinity>, 1, 1], [\<infinity>, \<infinity>, 1]]"
    by (simp add: loop_i_def loop_j_def relax_def upt3 one_enat_def numeral_eq_enat)
  have step: "loop_k 3 D = loop_i 3 2 (loop_i 3 (Suc 0) (loop_i 3 0 D))" for D
    by (simp add: loop_k_def upt3)
  have len: "length [[0, 1, 0], [0, 0, 1], [0, 0, 0 :: nat]] = 3" by simp
  show ?thesis
    unfolding len d0 step p0 p1 p2 by (rule refl)
qed


lemma chain3_visibility:
  "visibilityMatrix (createVisibilityMatrix (createAdjacencyMatrix (posix ''/w'') (initialResult chain3)))
     = Some [[0, 1, 1], [0, 0, 1], [0, 0, 0]]"
proof -
  have "toVisibility [[1, 1, 2], [\<infinity>, 1, 1], [\<infinity>, \<infinity>, 1]] = [[0, 1, 1], [0, 0, 1], [0, 0, 0]]"
    by (simp add: toVisibility_def upt3 one_enat_def numeral_eq_enat)
  then show ?thesis
    unfolding createVisibilityMatrix_eq [OF chain3_adjacency chain3_distances] by simp
qed

lemma cell_one: "(1::nat) = (if c then 1 else 0) \<Longrightarrow> c"
  by (simp split: if_splits)

lemma cell_zero: "(0::nat) = (if c then 1 else 0) \<Longrightarrow> \<not> c"
  by (simp split: if_splits)

theorem visibility_is_reachability_witness:
  "let r = processResults (posix ''/w'') (initialResult chain3) False
   in adjacencyMatrix r = Some [[0, 1, 0], [0, 0, 1], [0, 0, 0]] \<and>
      visibilityMatrix r = Some [[0, 1, 1], [0, 0, 1], [0, 0, 0]] \<and>
      (0, 2) \<in> (adjacencyEdges [[0, 1, 0], [0, 0, 1], [0, 0, 0]])\<^sup>+ \<and>
      (2, 0) \<notin> (adjacencyEdges [[0, 1, 0], [0, 0, 1], [0, 0, 0]])\<^sup>+"
proof -
  define r where "r = processResults (posix ''/w'') (initialResult chain3) False"
  let ?A = "[[0, 1, 0], [0, 0, 1], [0, 0, 0 :: nat]]"
  let ?V = "[[0, 1, 1], [0, 0, 1], [0, 0, 0 :: nat]]"
  have r: "adjacencyMatrix r = Some ?A" "visibilityMatrix r = Some ?V"
    unfolding r_def
    by (simp_all only: processResults_fields chain3_adjacency chain3_visibility)
  from visibility_is_reachability [of "posix ''/w''" "initialResult chain3"]
  obtain A V where av: "adjacencyMatrix r = Some A" "visibilityMatrix r = Some V"
    and n: "length A = length (reports r)"
    and cells: "\<forall>i < length (reports r). \<forall>j < length (reports r).
       V ! i ! j = (if i \<noteq> j \<and> (i, j) \<in> (adjacencyEdges A)\<^sup>+ then 1 else 0)"
    unfolding Let_def r_def [symmetric] by blast
  from av r have eqA: "A = ?A" and eqV: "V = ?V"
    by (simp_all only: option.inject)
  have len: "length (reports r) = 3"
    unfolding n [symmetric] eqA by simp
  have 1: "(0, 2) \<in> (adjacencyEdges A)\<^sup>+"
    using cells [rule_format, of 0 2] unfolding eqV len by (simp split: if_splits)
  have 2: "(2, 0) \<notin> (adjacencyEdges A)\<^sup>+"
    using cells [rule_format, of 2 0] unfolding eqV len by (simp split: if_splits)
  show ?thesis
    unfolding Let_def r_def [symmetric]
    using r 1 2 unfolding eqA by (intro conjI)
qed

section \<open>Properties of the module analyser\<close>

subsection \<open>The built-in-name guard\<close>

lemma bag_set_bag [simp]: "bag m (set_bag m b h) = b"
  by (cases m) simp_all

lemma set_bag_set_bag [simp]: "set_bag m b (set_bag m b' h) = set_bag m b h"
  by (cases m) simp_all

lemma guard_own:
  "ident \<in> set own \<Longrightarrow>
   incrementDistinctHalsteadItems own r m ident
     = incrementDistinctHalsteadItems own r m (CHR ''_'' # ident)"
  by simp

lemma guard_not_own:
  "ident \<notin> set own \<Longrightarrow>
   incrementDistinctHalsteadItems own r m ident
     = (if isHalsteadMetricDistinct r m ident
        then incrementHalsteadMetric (recordDistinctHalsteadMetric r m ident) m Distinct
        else r)"
  by simp

declare incrementDistinctHalsteadItems.simps [simp del]

text \<open>The name an identifier is recorded under: the guard's recursion on its own.\<close>

function guarded :: "string list \<Rightarrow> string \<Rightarrow> string" where
  "guarded own ident = (if ident \<in> set own then guarded own (CHR ''_'' # ident) else ident)"
  by pat_completeness auto
termination
  by (relation "measure (\<lambda>(own, ident). Suc (longest own) - length ident)")
     (auto dest: length_le_longest)

declare guarded.simps [simp del]

lemma guarded_not_own: "guarded own ident \<notin> set own"
  by (induction own ident rule: guarded.induct) (subst guarded.simps, simp)

lemma increment_guarded:
  "incrementDistinctHalsteadItems own r m ident
     = (if isHalsteadMetricDistinct r m (guarded own ident)
        then incrementHalsteadMetric (recordDistinctHalsteadMetric r m (guarded own ident)) m Distinct
        else r)"
proof (induction own ident rule: guarded.induct)
  case (1 own ident)
  show ?case
  proof (cases "ident \<in> set own")
    case True
    then have "guarded own ident = guarded own (CHR ''_'' # ident)"
      by (subst guarded.simps) simp
    with True 1 show ?thesis
      by (simp add: guard_own)
  next
    case False
    then have "guarded own ident = ident"
      by (subst guarded.simps) simp
    with False show ?thesis
      by (simp add: guard_not_own)
  qed
qed

lemma bag_incrementHalsteadItems:
  "bag m (halstead (incrementHalsteadItems own r m ident)) =
     (if guarded own ident \<notin> set (identifiers (bag m (halstead r)))
      then (bag m (halstead r))\<lparr>distinct := distinct (bag m (halstead r)) + 1,
              identifiers := identifiers (bag m (halstead r)) @ [guarded own ident],
              total := total (bag m (halstead r)) + 1\<rparr>
      else (bag m (halstead r))\<lparr>total := total (bag m (halstead r)) + 1\<rparr>)"
  by (simp add: incrementHalsteadItems_def increment_guarded isHalsteadMetricDistinct_def
      incrementTotalHalsteadItems_def incrementHalsteadMetric_def
      recordDistinctHalsteadMetric_def Let_def)

lemma bag_createFunctionReport:
  "bag m (halstead (createFunctionReport nm lines ps)) = \<lparr>distinct = 0, identifiers = [], total = 0\<rparr>"
  by (cases m) (simp_all add: createFunctionReport_def createInitialHalsteadState_def
      createInitialHalsteadItemState_def)

text \<open>
  Claim C10. For an identifier \<open>s\<close> that is an own property name of
  \<open>Object.prototype\<close>, encountering \<open>s\<close> and then \<open>_s\<close> in a fresh report leaves one
  recorded identifier, \<open>distinct = 1\<close> and \<open>total = 2\<close>: both are recorded under the
  same name, which is not \<open>s\<close>, and which is \<open>_s\<close> whenever \<open>_s\<close> is not itself an
  own property name (as for every name of a standard host).
\<close>

theorem builtin_guard_conflates:
  assumes "s \<in> set own"
  shows "let r = incrementHalsteadItems own
                   (incrementHalsteadItems own (createFunctionReport nm lines ps) m s) m (CHR ''_'' # s);
             b = bag m (halstead r)
         in distinct b = 1 \<and> total b = 2 \<and> identifiers b = [guarded own s] \<and>
            guarded own s \<noteq> s \<and> guarded own (CHR ''_'' # s) = guarded own s \<and>
            (CHR ''_'' # s \<notin> set own \<longrightarrow> identifiers b = [CHR ''_'' # s])"
proof -
  let ?r1 = "incrementHalsteadItems own (createFunctionReport nm lines ps) m s"
  let ?r2 = "incrementHalsteadItems own ?r1 m (CHR ''_'' # s)"
  have g: "guarded own (CHR ''_'' # s) = guarded own s"
    using assms by (subst (2) guarded.simps) simp
  have ne: "guarded own s \<noteq> s"
    using guarded_not_own [of own s] assms by auto
  have u: "guarded own s = CHR ''_'' # s" if "CHR ''_'' # s \<notin> set own"
    using that g by (subst (asm) guarded.simps) simp
  have b1: "bag m (halstead ?r1) = \<lparr>distinct = 1, identifiers = [guarded own s], total = 1\<rparr>"
    by (simp add: bag_incrementHalsteadItems bag_createFunctionReport)
  have b2: "bag m (halstead ?r2) = \<lparr>distinct = 1, identifiers = [guarded own s], total = 2\<rparr>"
    unfolding bag_incrementHalsteadItems [of m own ?r1] b1 g by simp
  show ?thesis
    unfolding Let_def b2 using ne g u by simp
qed

theorem builtin_guard_conflates_witness:
  "''toString'' \<in> set standardOwnProperties \<and>
   (let r = incrementHalsteadItems standardOwnProperties
              (incrementHalsteadItems standardOwnProperties (createFunctionReport None None 0)
                 Operands ''toString'') Operands ''_toString'';
        b = bag Operands (halstead r)
    in distinct b = 1 \<and> total b = 2 \<and> identifiers b = [''_toString''])"
proof -
  have own: "''toString'' \<in> set standardOwnProperties"
    by (simp add: standardOwnProperties_def)
  have fresh: "''_toString'' \<notin> set standardOwnProperties"
    by (simp add: standardOwnProperties_def)
  let ?b = "bag Operands (halstead (incrementHalsteadItems standardOwnProperties
              (incrementHalsteadItems standardOwnProperties (createFunctionReport None None 0)
                 Operands ''toString'') Operands ''_toString''))"
  note inst = builtin_guard_conflates [OF own, of None None 0 Operands, unfolded Let_def]
  from inst have "distinct ?b = 1" and "total ?b = 2" by blast+
  moreover from inst fresh have "identifiers ?b = [''_toString'']" by blast
  ultimately show ?thesis
    unfolding Let_def using own by blast
qed


subsection \<open>The dependency latch\<close>

lemma onAggregate_frame [simp]:
  "currentReport (onAggregate f st) = currentReport st"
  "scopeStack (onAggregate f st) = scopeStack st"
  "clearDependencies (onAggregate f st) = clearDependencies st"
  "dependencyCalls (onAggregate f st) = dependencyCalls st"
  "functionReports (report (onAggregate f st)) = functionReports (report st)"
  "dependencies (report (onAggregate f st)) = dependencies (report st)"
  "aggregate (report (onAggregate f st)) = f (aggregate (report st))"
  by (simp_all add: onAggregate_def)

lemma onCurrent_frame [simp]:
  "currentReport (onCurrent f st) = currentReport st"
  "scopeStack (onCurrent f st) = scopeStack st"
  "clearDependencies (onCurrent f st) = clearDependencies st"
  "dependencyCalls (onCurrent f st) = dependencyCalls st"
  "aggregate (report (onCurrent f st)) = aggregate (report st)"
  "dependencies (report (onCurrent f st)) = dependencies (report st)"
  "length (functionReports (report (onCurrent f st))) = length (functionReports (report st))"
  by (simp_all add: onCurrent_def split: option.splits)

lemma onCurrent_functionReports:
  "functionReports (report (onCurrent f st)) =
     (case currentReport st of None \<Rightarrow> functionReports (report st)
      | Some i \<Rightarrow> (functionReports (report st))[i := f (functionReports (report st) ! i)])"
  by (simp add: onCurrent_def split: option.splits)

text \<open>The variables of the closure that the four metric steps of \<open>processNode\<close> leave alone.\<close>

definition control :: "analysis \<Rightarrow> nat option \<times> nat list \<times> bool \<times> bool list \<times> nat" where
  "control st = (currentReport st, scopeStack st, clearDependencies st, dependencyCalls st,
                 length (functionReports (report st)))"

lemma control_incrementCounter:
  assumes "\<And>a st. control (incrementFn a st) = control st"
  shows "control (incrementCounter node amount incrementFn st) = control st"
  using assms by (simp add: incrementCounter_def split: amount.splits)

lemma control_processLloc [simp]: "control (processLloc node syn st) = control st"
  unfolding processLloc_def
  by (rule control_incrementCounter) (simp add: control_def incrementLogicalSloc_def)

lemma control_processCyclomatic [simp]: "control (processCyclomatic node syn st) = control st"
  unfolding processCyclomatic_def
  by (rule control_incrementCounter) (simp add: control_def incrementCyclomatic_def)

lemma control_halsteadItemEncountered [simp]:
  "control (halsteadItemEncountered own m ident st) = control st"
  by (simp add: control_def halsteadItemEncountered_def)

lemma control_processHalsteadMetric [simp]:
  "control (processHalsteadMetric own node syn m st) = control st"
proof -
  have "control (foldl (\<lambda>st s.
                   (let ident = (case h_identifier s of Inl str \<Rightarrow> str | Inr f \<Rightarrow> f node)
                    in if (case h_filter s of None \<Rightarrow> True | Some f \<Rightarrow> f node)
                       then halsteadItemEncountered own m ident st else st)) st ds)
          = control st" for ds :: "'a halstead_descriptor list"
    by (induction ds arbitrary: st) (simp_all add: Let_def)
  then show ?thesis
    by (simp add: processHalsteadMetric_def split: option.splits)
qed

lemma control_metrics [simp]:
  "control (processOperands own node syn (processOperators own node syn
      (processCyclomatic node syn (processLloc node syn st)))) = control st"
  by (simp add: processOperands_def processOperators_def)

text \<open>Whether a callback call reaches a \<open>dependencies\<close> descriptor.\<close>

fun callsDependencies :: "'n event \<Rightarrow> bool" where
  "callsDependencies (ProcessNode node syn) = (s_dependencies syn \<noteq> None)"
| "callsDependencies _ = False"

lemma controlD:
  assumes "control a = control b"
  shows "currentReport a = currentReport b" "scopeStack a = scopeStack b"
    "clearDependencies a = clearDependencies b" "dependencyCalls a = dependencyCalls b"
    "length (functionReports (report a)) = length (functionReports (report b))"
  using assms by (simp_all add: control_def)

lemma processDependencies_latch:
  "dependencyCalls (snd (processDependencies node syn c st)) =
     (if s_dependencies syn \<noteq> None then dependencyCalls st @ [c] else dependencyCalls st)"
  "clearDependencies (snd (processDependencies node syn c st)) = clearDependencies st"
  "fst (processDependencies node syn c st) = (s_dependencies syn \<noteq> None)"
  by (simp_all add: processDependencies_def Let_def split: option.splits dependency_result.splits)

lemma processNode_latch:
  "dependencyCalls (processNode own node syn st) =
     (if s_dependencies syn \<noteq> None then dependencyCalls st @ [clearDependencies st]
      else dependencyCalls st)"
  "clearDependencies (processNode own node syn st) =
     (if s_dependencies syn \<noteq> None then False else clearDependencies st)"
proof -
  let ?st4 = "processOperands own node syn (processOperators own node syn
      (processCyclomatic node syn (processLloc node syn st)))"
  have c: "control ?st4 = control st" by simp
  have eq: "processNode own node syn st =
      (let p = processDependencies node syn (clearDependencies ?st4) ?st4
       in if fst p then (snd p)\<lparr>clearDependencies := False\<rparr> else snd p)"
    by (simp add: processNode_def Let_def split: prod.splits)
  show "dependencyCalls (processNode own node syn st) =
     (if s_dependencies syn \<noteq> None then dependencyCalls st @ [clearDependencies st]
      else dependencyCalls st)"
    unfolding eq Let_def
    by (simp add: processDependencies_latch controlD [OF c])
  show "clearDependencies (processNode own node syn st) =
     (if s_dependencies syn \<noteq> None then False else clearDependencies st)"
    unfolding eq Let_def
    by (simp add: processDependencies_latch controlD [OF c])
qed

lemma callback_latch:
  "dependencyCalls (callback own st ev) =
     (if callsDependencies ev then dependencyCalls st @ [clearDependencies st] else dependencyCalls st)"
  "clearDependencies (callback own st ev) =
     (if callsDependencies ev then False else clearDependencies st)"
  by (cases ev; simp add: pushScope_def popScope_def processNode_latch Let_def)+

lemma latch_closed:
  "\<not> clearDependencies st \<Longrightarrow>
   dependencyCalls (foldl (callback own) st evs)
     = dependencyCalls st @ replicate (length (filter callsDependencies evs)) False"
proof (induction evs arbitrary: st)
  case Nil
  then show ?case by simp
next
  case (Cons ev evs)
  then show ?case
    by (simp add: callback_latch replicate_app_Cons_same)
qed

lemma latch_open:
  "clearDependencies st \<Longrightarrow>
   dependencyCalls (foldl (callback own) st evs)
     = dependencyCalls st @
         (case length (filter callsDependencies evs) of 0 \<Rightarrow> [] | Suc k \<Rightarrow> True # replicate k False)"
proof (induction evs arbitrary: st)
  case Nil
  then show ?case by simp
next
  case (Cons ev evs)
  show ?case
  proof (cases "callsDependencies ev")
    case True
    then show ?thesis
      using Cons.prems latch_closed [of "callback own st ev" own evs]
      by (simp add: callback_latch)
  next
    case False
    then show ?thesis
      using Cons by (simp add: callback_latch)
  qed
qed

text \<open>The records that \<open>concat\<close> appends for one result of a \<open>dependencies\<close> function.\<close>

fun records :: "dependency_result \<Rightarrow> dependency list" where
  "records (DependencyObject d) = [d]"
| "records (DependencyArray ds) = ds"
| "records NotAnObject = []"

text \<open>
  The dependencies a walk collects when the descriptors are called with the flag \<open>c\<close> at
  the first call and with \<open>false\<close> at every later one.
\<close>

fun collected :: "bool \<Rightarrow> 'n event list \<Rightarrow> dependency list" where
  "collected c [] = []"
| "collected c (ProcessNode node syn # evs) =
     (case s_dependencies syn of
        None \<Rightarrow> collected c evs
      | Some f \<Rightarrow> records (f node c) @ collected False evs)"
| "collected c (CreateScope nm lines ps # evs) = collected c evs"
| "collected c (PopScope # evs) = collected c evs"

lemma deps_incrementCounter:
  assumes "\<And>a st. dependencies (report (incrementFn a st)) = dependencies (report st)"
  shows "dependencies (report (incrementCounter node amount incrementFn st))
           = dependencies (report st)"
  using assms by (simp add: incrementCounter_def split: amount.splits)

lemma deps_processLloc:
  "dependencies (report (processLloc node syn st)) = dependencies (report st)"
  unfolding processLloc_def
  by (rule deps_incrementCounter) (simp add: incrementLogicalSloc_def)

lemma deps_processCyclomatic:
  "dependencies (report (processCyclomatic node syn st)) = dependencies (report st)"
  unfolding processCyclomatic_def
  by (rule deps_incrementCounter) (simp add: incrementCyclomatic_def)

lemma deps_processHalsteadMetric:
  "dependencies (report (processHalsteadMetric own node syn m st)) = dependencies (report st)"
proof -
  have "dependencies (report (foldl (\<lambda>st s.
                   (let ident = (case h_identifier s of Inl str \<Rightarrow> str | Inr f \<Rightarrow> f node)
                    in if (case h_filter s of None \<Rightarrow> True | Some f \<Rightarrow> f node)
                       then halsteadItemEncountered own m ident st else st)) st ds))
          = dependencies (report st)" for ds :: "'a halstead_descriptor list"
    by (induction ds arbitrary: st) (simp_all add: Let_def halsteadItemEncountered_def)
  then show ?thesis
    by (simp add: processHalsteadMetric_def split: option.splits)
qed

lemma processNode_dependencies:
  "dependencies (report (processNode own node syn st)) =
     dependencies (report st) @
       (case s_dependencies syn of None \<Rightarrow> [] | Some f \<Rightarrow> records (f node (clearDependencies st)))"
proof -
  let ?st4 = "processOperands own node syn (processOperators own node syn
      (processCyclomatic node syn (processLloc node syn st)))"
  have c: "control ?st4 = control st" by simp
  have d: "dependencies (report ?st4) = dependencies (report st)"
    by (simp add: processOperands_def processOperators_def deps_processHalsteadMetric
        deps_processCyclomatic deps_processLloc)
  have eq: "processNode own node syn st =
      (let p = processDependencies node syn (clearDependencies ?st4) ?st4
       in if fst p then (snd p)\<lparr>clearDependencies := False\<rparr> else snd p)"
    by (simp add: processNode_def Let_def split: prod.splits)
  have "dependencies (report (snd (processDependencies node syn b s))) =
      dependencies (report s) @
        (case s_dependencies syn of None \<Rightarrow> [] | Some f \<Rightarrow> records (f node b))" for b s
    by (simp add: processDependencies_def Let_def split: option.splits dependency_result.splits)
  then show ?thesis
    unfolding eq Let_def by (simp add: d controlD(3) [OF c])
qed

lemma collected_walk:
  "dependencies (report (foldl (callback own) st evs))
     = dependencies (report st) @ collected (clearDependencies st) evs"
proof (induction evs arbitrary: st)
  case Nil
  then show ?case by simp
next
  case (Cons ev evs)
  show ?case
  proof (cases ev)
    case (CreateScope nm lines ps)
    then show ?thesis
      using Cons [of "callback own st ev"]
      by (simp add: pushScope_def Let_def)
  next
    case PopScope
    then show ?thesis
      using Cons [of "callback own st ev"]
      by (simp add: popScope_def Let_def)
  next
    case (ProcessNode node syn)
    then show ?thesis
      using Cons [of "callback own st ev"] processNode_latch(2) [of own node syn st]
      by (simp add: processNode_dependencies split: option.splits)
  qed
qed

text \<open>
  Claim C7. In one walk the \<open>dependencies\<close> descriptors are called with \<open>true\<close> at
  the first call and with \<open>false\<close> at every later one: the dependencies of the report
  are those that these calls return, for arbitrary descriptor functions, and the logged
  arguments are \<open>true\<close> followed by \<open>false\<close> only. The flag is \<open>false\<close> after the
  first call whatever that call returned.
\<close>

theorem dependency_latch_arguments:
  "dependencies (report (walk own lines evs)) = collected True evs \<and>
   dependencyCalls (walk own lines evs) =
     (case length (filter callsDependencies evs) of
        0 \<Rightarrow> []
      | Suc k \<Rightarrow> True # replicate k False)"
  using latch_open [of "initialAnalysis lines" own evs]
    collected_walk [of own "initialAnalysis lines" evs]
  by (simp add: walk_def initialAnalysis_def createReport_def)

text \<open>
  A descriptor whose \<open>dependencies\<close> function returns something that is not an object, and
  one that returns a record naming the flag it was called with.
\<close>

definition returnsNothing :: "unit syntax_descriptor" where
  "returnsNothing =
     \<lparr>s_lloc = NoAmount, s_cyclomatic = NoAmount, s_operators = None, s_operands = None,
      s_dependencies = Some (\<lambda>node clear. NotAnObject)\<rparr>"

definition returnsFlag :: "unit syntax_descriptor" where
  "returnsFlag =
     \<lparr>s_lloc = NoAmount, s_cyclomatic = NoAmount, s_operators = None, s_operands = None,
      s_dependencies = Some (\<lambda>node clear.
         DependencyObject \<lparr>dep_type = (if clear then ''first'' else ''later''), dep_path = []\<rparr>)\<rparr>"

theorem dependency_latch_arguments_witness:
  "map dep_type (dependencies (report (walk standardOwnProperties None
      [ProcessNode () returnsFlag, CreateScope None None 0, ProcessNode () returnsFlag,
       PopScope, ProcessNode () returnsFlag]))) = [''first'', ''later'', ''later''] \<and>
   map dep_type (dependencies (report (walk standardOwnProperties None
      [ProcessNode () returnsNothing, ProcessNode () returnsFlag]))) = [''later''] \<and>
   dependencyCalls (walk standardOwnProperties None
      [ProcessNode () returnsNothing, ProcessNode () returnsFlag]) = [True, False]"
  using dependency_latch_arguments [of standardOwnProperties None
      "[ProcessNode () returnsFlag, CreateScope None None 0, ProcessNode () returnsFlag,
        PopScope, ProcessNode () returnsFlag]"]
    dependency_latch_arguments [of standardOwnProperties None
      "[ProcessNode () returnsNothing, ProcessNode () returnsFlag]"]
  by (simp add: returnsNothing_def returnsFlag_def)


subsection \<open>The aggregate is the sum of the functions and the top level\<close>

text \<open>
  The four quantities of a report that the walk accumulates; the cyclomatic complexity is
  counted without the baseline 1 a report starts with.
\<close>

datatype quantity = OperatorTotal | OperandTotal | LogicalSloc | Cyclomatic

fun tally :: "quantity \<Rightarrow> function_report \<Rightarrow> int" where
  "tally OperatorTotal r = int (total (operators (halstead r)))"
| "tally OperandTotal r = int (total (operands (halstead r)))"
| "tally LogicalSloc r = logical (sloc r)"
| "tally Cyclomatic r = cyclomatic r - 1"

text \<open>
  What one \<open>processNode\<close> call adds to a quantity: the number of descriptor entries that
  pass their filter, or the amount of the descriptor.
\<close>

definition tokenCount :: "metric \<Rightarrow> 'n \<Rightarrow> 'n syntax_descriptor \<Rightarrow> nat" where
  "tokenCount m node syn =
     (case descriptors m syn of
        None \<Rightarrow> 0
      | Some ds \<Rightarrow> length (filter (\<lambda>s. case h_filter s of None \<Rightarrow> True | Some f \<Rightarrow> f node) ds))"

definition amountOf :: "'n \<Rightarrow> 'n amount \<Rightarrow> int" where
  "amountOf node a = (case a of NoAmount \<Rightarrow> 0 | Literal x \<Rightarrow> x | Computed f \<Rightarrow> f node)"

fun contribution :: "quantity \<Rightarrow> 'n \<Rightarrow> 'n syntax_descriptor \<Rightarrow> int" where
  "contribution OperatorTotal node syn = int (tokenCount Operators node syn)"
| "contribution OperandTotal node syn = int (tokenCount Operands node syn)"
| "contribution LogicalSloc node syn = amountOf node (s_lloc syn)"
| "contribution Cyclomatic node syn = amountOf node (s_cyclomatic syn)"

text \<open>
  The part of a quantity that a walk encounters while no function is current, read off the
  list of callback calls alone: \<open>d\<close> counts the scopes that are open.
\<close>

fun topLevel :: "quantity \<Rightarrow> nat \<Rightarrow> 'n event list \<Rightarrow> int" where
  "topLevel q d [] = 0"
| "topLevel q d (CreateScope nm lines ps # evs) = topLevel q (Suc d) evs"
| "topLevel q d (PopScope # evs) = topLevel q (d - 1) evs"
| "topLevel q d (ProcessNode node syn # evs) =
     (if d = 0 then contribution q node syn else 0) + topLevel q d evs"

definition wellScoped :: "analysis \<Rightarrow> bool" where
  "wellScoped st \<longleftrightarrow>
     currentReport st = (if scopeStack st = [] then None else Some (last (scopeStack st))) \<and>
     list_all (\<lambda>i. i < length (functionReports (report st))) (scopeStack st)"

definition surplus :: "quantity \<Rightarrow> analysis \<Rightarrow> int" where
  "surplus q st =
     tally q (aggregate (report st)) - sum_list (map (tally q) (functionReports (report st)))"

lemma sum_list_map_update:
  "i < length xs \<Longrightarrow>
   sum_list (map g (xs[i := x])) = sum_list (map g xs) - g (xs ! i) + (g x :: int)"
proof (induction xs arbitrary: i)
  case Nil
  then show ?case by simp
next
  case (Cons y ys)
  then show ?case by (cases i) simp_all
qed

lemma wellScoped_control: "control a = control b \<Longrightarrow> wellScoped a = wellScoped b"
  by (simp add: wellScoped_def control_def)

lemma wellScoped_current:
  "wellScoped st \<Longrightarrow> currentReport st = Some i \<Longrightarrow> i < length (functionReports (report st))"
  by (auto simp: wellScoped_def list_all_iff split: if_splits)

lemma wellScoped_top: "wellScoped st \<Longrightarrow> (currentReport st = None) = (length (scopeStack st) = 0)"
  by (simp add: wellScoped_def)

text \<open>An update of the aggregate and of the current report by the same function.\<close>

lemma surplus_both:
  assumes "wellScoped st" and "\<And>r. tally q (f r) = tally q r + d"
  shows "surplus q (onCurrent f (onAggregate f st))
           = surplus q st + (if currentReport st = None then d else 0)"
    and "surplus q (onAggregate f (onCurrent f st))
           = surplus q st + (if currentReport st = None then d else 0)"
proof -
  show "surplus q (onCurrent f (onAggregate f st))
           = surplus q st + (if currentReport st = None then d else 0)"
  proof (cases "currentReport st")
    case None
    then show ?thesis
      by (simp add: surplus_def onCurrent_functionReports assms(2))
  next
    case (Some i)
    then have "i < length (functionReports (report st))"
      using assms(1) wellScoped_current by blast
    then show ?thesis
      using Some by (simp add: surplus_def onCurrent_functionReports assms(2) sum_list_map_update)
  qed
  show "surplus q (onAggregate f (onCurrent f st))
           = surplus q st + (if currentReport st = None then d else 0)"
  proof (cases "currentReport st")
    case None
    then show ?thesis
      by (simp add: surplus_def onCurrent_functionReports assms(2))
  next
    case (Some i)
    then have "i < length (functionReports (report st))"
      using assms(1) wellScoped_current by blast
    then show ?thesis
      using Some by (simp add: surplus_def onCurrent_functionReports assms(2) sum_list_map_update)
  qed
qed

lemma tally_addLogical:
  "tally q (addLogical a r) = tally q r + (if q = LogicalSloc then a else 0)"
  by (cases q) (simp_all add: addLogical_def)

lemma tally_addCyclomatic:
  "tally q (addCyclomatic a r) = tally q r + (if q = Cyclomatic then a else 0)"
  by (cases q) (simp_all add: addCyclomatic_def)

fun quantityOf :: "metric \<Rightarrow> quantity" where
  "quantityOf Operators = OperatorTotal"
| "quantityOf Operands = OperandTotal"

lemma frame_incrementDistinct:
  "total (bag m' (halstead (incrementDistinctHalsteadItems own r m ident)))
     = total (bag m' (halstead r))"
  "sloc (incrementDistinctHalsteadItems own r m ident) = sloc r"
  "cyclomatic (incrementDistinctHalsteadItems own r m ident) = cyclomatic r"
  by (cases m; cases m';
      simp add: increment_guarded incrementHalsteadMetric_def recordDistinctHalsteadMetric_def
        Let_def)+

lemma tally_incrementHalsteadItems:
  "tally q (incrementHalsteadItems own r m ident)
     = tally q r + (if q = quantityOf m then 1 else 0)"
  using frame_incrementDistinct(1) [of Operators own r m ident]
    frame_incrementDistinct(1) [of Operands own r m ident]
    frame_incrementDistinct(2,3) [of own r m ident]
  by (cases q; cases m)
     (simp_all add: incrementHalsteadItems_def incrementTotalHalsteadItems_def
        incrementHalsteadMetric_def Let_def)


lemma step_incrementLogicalSloc:
  assumes "wellScoped st"
  shows "surplus q (incrementLogicalSloc a st)
           = surplus q st + (if currentReport st = None \<and> q = LogicalSloc then a else 0)"
  using surplus_both(1) [OF assms, of q "addLogical a", OF tally_addLogical]
  by (simp add: incrementLogicalSloc_def)

lemma step_incrementCyclomatic:
  assumes "wellScoped st"
  shows "surplus q (incrementCyclomatic a st)
           = surplus q st + (if currentReport st = None \<and> q = Cyclomatic then a else 0)"
  using surplus_both(1) [OF assms, of q "addCyclomatic a", OF tally_addCyclomatic]
  by (simp add: incrementCyclomatic_def)

lemma step_halsteadItemEncountered:
  assumes "wellScoped st"
  shows "surplus q (halsteadItemEncountered own m ident st)
           = surplus q st + (if currentReport st = None \<and> q = quantityOf m then 1 else 0)"
  using surplus_both(2) [OF assms, of q "\<lambda>r. incrementHalsteadItems own r m ident",
      OF tally_incrementHalsteadItems]
  by (simp add: halsteadItemEncountered_def)

lemma step_processLloc:
  assumes "wellScoped st"
  shows "surplus q (processLloc node syn st)
           = surplus q st + (if currentReport st = None \<and> q = LogicalSloc
                             then amountOf node (s_lloc syn) else 0)"
  using assms
  by (simp add: processLloc_def incrementCounter_def amountOf_def step_incrementLogicalSloc
      split: amount.splits)

lemma step_processCyclomatic:
  assumes "wellScoped st"
  shows "surplus q (processCyclomatic node syn st)
           = surplus q st + (if currentReport st = None \<and> q = Cyclomatic
                             then amountOf node (s_cyclomatic syn) else 0)"
  using assms
  by (simp add: processCyclomatic_def incrementCounter_def amountOf_def step_incrementCyclomatic
      split: amount.splits)

lemma step_processHalsteadMetric:
  assumes "wellScoped st"
  shows "surplus q (processHalsteadMetric own node syn m st)
           = surplus q st + (if currentReport st = None \<and> q = quantityOf m
                             then int (tokenCount m node syn) else 0)"
proof -
  let ?pass = "\<lambda>s. case h_filter s of None \<Rightarrow> True | Some f \<Rightarrow> f node"
  let ?body = "\<lambda>st s.
                   (let ident = (case h_identifier s of Inl str \<Rightarrow> str | Inr f \<Rightarrow> f node)
                    in if ?pass s then halsteadItemEncountered own m ident st else st)"
  have "wellScoped st \<Longrightarrow>
        control (foldl ?body st ds) = control st \<and>
        surplus q (foldl ?body st ds)
          = surplus q st + (if currentReport st = None \<and> q = quantityOf m
                            then int (length (filter ?pass ds)) else 0)"
    for ds :: "'a halstead_descriptor list" and st
  proof (induction ds arbitrary: st)
    case Nil
    then show ?case by simp
  next
    case (Cons s ds)
    let ?st1 = "?body st s"
    have c: "control ?st1 = control st"
      by (simp add: Let_def)
    then have w: "wellScoped ?st1"
      using Cons.prems wellScoped_control by blast
    have s1: "surplus q ?st1 = surplus q st +
        (if currentReport st = None \<and> q = quantityOf m \<and> ?pass s then 1 else 0)"
      using Cons.prems by (simp add: Let_def step_halsteadItemEncountered)
    from Cons.IH [OF w] c s1 controlD(1) [OF c] show ?case
      by simp
  qed
  note fold = this
  show ?thesis
  proof (cases "descriptors m syn")
    case None
    then show ?thesis
      by (simp add: processHalsteadMetric_def tokenCount_def)
  next
    case (Some ds)
    have "processHalsteadMetric own node syn m st = foldl ?body st ds"
      by (simp add: processHalsteadMetric_def Some)
    moreover have "tokenCount m node syn = length (filter ?pass ds)"
      by (simp add: tokenCount_def Some)
    ultimately show ?thesis
      using fold [OF assms, of ds] by presburger
  qed
qed

lemma step_processNode:
  assumes "wellScoped st"
  shows "surplus q (processNode own node syn st)
           = surplus q st + (if currentReport st = None then contribution q node syn else 0)"
    and "wellScoped (processNode own node syn st)"
    and "scopeStack (processNode own node syn st) = scopeStack st"
proof -
  let ?st1 = "processLloc node syn st"
  let ?st2 = "processCyclomatic node syn ?st1"
  let ?st3 = "processOperators own node syn ?st2"
  let ?st4 = "processOperands own node syn ?st3"
  have c1: "control ?st1 = control st" and c2: "control ?st2 = control st"
    and c3: "control ?st3 = control st" and c4: "control ?st4 = control st"
    by (simp_all add: processOperators_def processOperands_def)
  have w1: "wellScoped ?st1" and w2: "wellScoped ?st2" and w3: "wellScoped ?st3"
    and w4: "wellScoped ?st4"
    using assms wellScoped_control c1 c2 c3 c4 by blast+
  have s4: "surplus q ?st4
      = surplus q st + (if currentReport st = None then contribution q node syn else 0)"
    unfolding processOperands_def processOperators_def
      step_processHalsteadMetric [OF w3 [unfolded processOperators_def]]
      step_processHalsteadMetric [OF w2]
      step_processCyclomatic [OF w1] step_processLloc [OF assms]
    using controlD(1) [OF c1] controlD(1) [OF c2] controlD(1) [OF c3 [unfolded processOperators_def]]
    by (cases q) simp_all
  have eq: "processNode own node syn st =
      (let p = processDependencies node syn (clearDependencies ?st4) ?st4
       in if fst p then (snd p)\<lparr>clearDependencies := False\<rparr> else snd p)"
    by (simp add: processNode_def Let_def split: prod.splits)
  have frame: "aggregate (report (processNode own node syn st)) = aggregate (report ?st4)"
    "functionReports (report (processNode own node syn st)) = functionReports (report ?st4)"
    "scopeStack (processNode own node syn st) = scopeStack ?st4"
    "currentReport (processNode own node syn st) = currentReport ?st4"
    unfolding eq
    by (simp_all add: processDependencies_def Let_def
        split: option.splits dependency_result.splits)
  show "surplus q (processNode own node syn st)
           = surplus q st + (if currentReport st = None then contribution q node syn else 0)"
    using s4 by (simp add: surplus_def frame)
  show "wellScoped (processNode own node syn st)"
    using w4 by (simp add: wellScoped_def frame)
  show "scopeStack (processNode own node syn st) = scopeStack st"
    using controlD(2) [OF c4] by (simp add: frame)
qed


lemma tally_createFunctionReport: "tally q (createFunctionReport nm lines ps) = 0"
  by (cases q) (simp_all add: createFunctionReport_def createInitialHalsteadState_def
      createInitialHalsteadItemState_def)

lemma step_pushScope:
  assumes "wellScoped st"
  shows "surplus q (pushScope nm lines ps st) = surplus q st"
    and "wellScoped (pushScope nm lines ps st)"
    and "length (scopeStack (pushScope nm lines ps st)) = Suc (length (scopeStack st))"
proof -
  have "tally q ((aggregate (report st))\<lparr>params := x\<rparr>) = tally q (aggregate (report st))" for x
    by (cases q) simp_all
  then show "surplus q (pushScope nm lines ps st) = surplus q st"
    by (simp add: surplus_def pushScope_def Let_def tally_createFunctionReport)
  show "wellScoped (pushScope nm lines ps st)"
    using assms by (auto simp: wellScoped_def pushScope_def Let_def list_all_iff)
  show "length (scopeStack (pushScope nm lines ps st)) = Suc (length (scopeStack st))"
    by (simp add: pushScope_def Let_def)
qed

lemma step_popScope:
  assumes "wellScoped st"
  shows "surplus q (popScope st) = surplus q st"
    and "wellScoped (popScope st)"
    and "length (scopeStack (popScope st)) = length (scopeStack st) - 1"
proof -
  show "surplus q (popScope st) = surplus q st"
    by (simp add: surplus_def popScope_def Let_def)
  show "wellScoped (popScope st)"
    using assms by (auto simp: wellScoped_def popScope_def Let_def list_all_iff dest: in_set_butlastD)
  show "length (scopeStack (popScope st)) = length (scopeStack st) - 1"
    by (simp add: popScope_def Let_def)
qed

lemma surplus_walk:
  assumes "wellScoped st"
  shows "surplus q (foldl (callback own) st evs)
           = surplus q st + topLevel q (length (scopeStack st)) evs"
  using assms
proof (induction evs arbitrary: st)
  case Nil
  then show ?case by simp
next
  case (Cons ev evs)
  show ?case
  proof (cases ev)
    case (CreateScope nm lines ps)
    with Cons.IH [OF step_pushScope(2) [OF Cons.prems, of nm lines ps]]
    show ?thesis
      by (simp add: step_pushScope [OF Cons.prems])
  next
    case PopScope
    with Cons.IH [OF step_popScope(2) [OF Cons.prems]]
    show ?thesis
      by (simp add: step_popScope [OF Cons.prems])
  next
    case (ProcessNode node syn)
    with Cons.IH [OF step_processNode(2) [OF Cons.prems, of own node syn]]
    show ?thesis
      by (simp add: step_processNode [OF Cons.prems] wellScoped_top [OF Cons.prems])
  qed
qed

lemma wellScoped_initial: "wellScoped (initialAnalysis lines)"
  by (simp add: wellScoped_def initialAnalysis_def)

lemma surplus_initial: "surplus q (initialAnalysis lines) = 0"
  by (simp add: surplus_def initialAnalysis_def createReport_def tally_createFunctionReport)

lemma tally_walk:
  "tally q (aggregate (report (walk own lines evs)))
     = sum_list (map (tally q) (functionReports (report (walk own lines evs)))) + topLevel q 0 evs"
  using surplus_walk [OF wellScoped_initial, of q own lines evs]
  by (simp add: walk_def surplus_initial) (simp add: surplus_def initialAnalysis_def)

lemma tally_unfold:
  "tally OperatorTotal = (\<lambda>f. int (total (operators (halstead f))))"
  "tally OperandTotal = (\<lambda>f. int (total (operands (halstead f))))"
  "tally LogicalSloc = (\<lambda>f. logical (sloc f))"
  "tally Cyclomatic = (\<lambda>f. cyclomatic f - 1)"
  by (rule ext, simp)+

text \<open>
  Claim C2. After any walk, the aggregate's \<open>operators.total\<close> is the sum of the
  function reports' \<open>operators.total\<close> plus the number of operator tokens encountered
  while no function was current; the same holds for the operands, for the logical SLOC,
  and for the cyclomatic complexity once the baseline 1 of every report is taken off.
\<close>

theorem aggregate_is_sum_plus_top_level:
  "let r = report (walk own lines evs); fs = functionReports r in
     int (total (operators (halstead (aggregate r))))
       = (\<Sum>f\<leftarrow>fs. int (total (operators (halstead f)))) + topLevel OperatorTotal 0 evs \<and>
     int (total (operands (halstead (aggregate r))))
       = (\<Sum>f\<leftarrow>fs. int (total (operands (halstead f)))) + topLevel OperandTotal 0 evs \<and>
     logical (sloc (aggregate r))
       = (\<Sum>f\<leftarrow>fs. logical (sloc f)) + topLevel LogicalSloc 0 evs \<and>
     cyclomatic (aggregate r) - 1
       = (\<Sum>f\<leftarrow>fs. cyclomatic f - 1) + topLevel Cyclomatic 0 evs"
  using tally_walk [of OperatorTotal own lines evs] tally_walk [of OperandTotal own lines evs]
    tally_walk [of LogicalSloc own lines evs] tally_walk [of Cyclomatic own lines evs]
  unfolding tally_unfold Let_def by blast

subsection \<open>Metric finalisation\<close>

text \<open>The settings \<open>analyse\<close> works with: the options when given, the defaults otherwise.\<close>

definition settingsOf :: "settings option \<Rightarrow> settings" where
  "settingsOf options = (case options of Some opts \<Rightarrow> opts | None \<Rightarrow> defaultSettings)"

text \<open>
  The average cyclomatic complexity in the words of the specification: over the function
  reports, or of the aggregate alone when there are no functions.
\<close>

definition averageCyclomatic :: "module_report \<Rightarrow> real" where
  "averageCyclomatic r =
     (if functionReports r = [] then real_of_int (cyclomatic (aggregate r))
      else real_of_int (\<Sum>f\<leftarrow>functionReports r. cyclomatic f)
             / real (length (functionReports r)))"

text \<open>The array \<open>averages\<close> of \<open>calculateMetrics\<close>.\<close>

definition averagesOf :: "module_report \<Rightarrow> jsnum list" where
  "averagesOf r =
     (let count = length (functionReports r);
          fs = map finaliseReport (functionReports r);
          sums0 = foldl sumMaintainabilityMetrics [Fin 0, Fin 0, Fin 0, Fin 0] fs;
          agg = finaliseReport (aggregate r);
          sums1 = (if count = 0 then sumMaintainabilityMetrics sums0 agg else sums0);
          count' = (if count = 0 then 1 else count)
      in map (\<lambda>s. jdiv s (natnum count')) sums1)"

lemma calculateMetrics_alt:
  "calculateMetrics st r =
     (case calculateMaintainabilityIndex (averagesOf r ! 2) (averagesOf r ! 1) (averagesOf r ! 0)
             (newmi st) of
        Inl e \<Rightarrow> Inl e
      | Inr mi \<Rightarrow>
          Inr (r\<lparr>functionReports := map finaliseReport (functionReports r),
                 aggregate := finaliseReport (aggregate r), maintainability := Some mi,
                 m_cyclomatic := Some (averagesOf r ! 1), m_effort := Some (averagesOf r ! 2),
                 m_loc := Some (averagesOf r ! 0), m_params := Some (averagesOf r ! 3)\<rparr>))"
  unfolding calculateMetrics_def averagesOf_def Let_def by (rule refl)

lemma finaliseReport_frame:
  "cyclomatic (finaliseReport f) = cyclomatic f"
  "name (finaliseReport f) = name f"
  "params (finaliseReport f) = params f"
  "sloc (finaliseReport f) = sloc f"
  "line (finaliseReport f) = line f"
  "operators (halstead (finaliseReport f)) = operators (halstead f)"
  "operands (halstead (finaliseReport f)) = operands (halstead f)"
  by (simp_all add: finaliseReport_def calculateCyclomaticDensity_def calculateHalsteadMetrics_def
      nilHalsteadMetrics_def Let_def)

lemma sums_cyclomatic:
  "length s = 4 \<Longrightarrow> s ! 1 = Fin x \<Longrightarrow>
   length (foldl sumMaintainabilityMetrics s fs) = 4 \<and>
   foldl sumMaintainabilityMetrics s fs ! 1 = Fin (x + real_of_int (\<Sum>f\<leftarrow>fs. cyclomatic f))"
proof (induction fs arbitrary: s x)
  case Nil
  then show ?case by simp
next
  case (Cons f fs)
  have "length (sumMaintainabilityMetrics s f) = 4"
    and "sumMaintainabilityMetrics s f ! 1 = Fin (x + real_of_int (cyclomatic f))"
    using Cons.prems by (simp_all add: sumMaintainabilityMetrics_def num_def)
  from Cons.IH [OF this] show ?case
    by (simp add: add.assoc)
qed

lemma average_cyclomatic: "averagesOf r ! 1 = Fin (averageCyclomatic r)"
proof -
  let ?fs = "map finaliseReport (functionReports r)"
  let ?s0 = "foldl sumMaintainabilityMetrics [Fin 0, Fin 0, Fin 0, Fin 0] ?fs"
  have cyc: "(\<Sum>f\<leftarrow>?fs. cyclomatic f) = (\<Sum>f\<leftarrow>functionReports r. cyclomatic f)"
    by (simp add: comp_def finaliseReport_frame)
  have s0: "length ?s0 = 4" "?s0 ! 1 = Fin (real_of_int (\<Sum>f\<leftarrow>functionReports r. cyclomatic f))"
    using sums_cyclomatic [of "[Fin 0, Fin 0, Fin 0, Fin 0]" 0 ?fs] cyc by simp_all
  show ?thesis
  proof (cases "functionReports r = []")
    case True
    then show ?thesis
      by (simp add: averagesOf_def averageCyclomatic_def sumMaintainabilityMetrics_def
          num_def natnum_def finaliseReport_frame)
  next
    case False
    then have "averagesOf r = map (\<lambda>s. jdiv s (natnum (length (functionReports r)))) ?s0"
      by (simp add: averagesOf_def Let_def)
    then show ?thesis
      using s0 False by (simp add: averageCyclomatic_def natnum_def)
  qed
qed

text \<open>
  Claim C5. \<open>calculateMetrics\<close> raises \<open>ZeroCyclomatic\<close> exactly when the average
  cyclomatic complexity is 0; otherwise it returns a report with a maintainability value,
  whose \<open>cyclomatic\<close> field is that average.
\<close>

theorem zero_cyclomatic_raises:
  "(calculateMetrics st r = Inl ZeroCyclomatic \<longleftrightarrow> averageCyclomatic r = 0) \<and>
   (averageCyclomatic r \<noteq> 0 \<longrightarrow>
      (\<exists>r' m. calculateMetrics st r = Inr r' \<and> maintainability r' = Some m \<and>
               m_cyclomatic r' = Some (Fin (averageCyclomatic r))))"
proof (cases "averageCyclomatic r = 0")
  case True
  have "calculateMaintainabilityIndex e (Fin 0) l flag = Inl ZeroCyclomatic" for e l flag
    by (simp add: calculateMaintainabilityIndex_def)
  then have "calculateMetrics st r = Inl ZeroCyclomatic"
    unfolding calculateMetrics_alt average_cyclomatic True by simp
  with True show ?thesis by simp
next
  case False
  have "\<exists>m. calculateMaintainabilityIndex e (Fin (averageCyclomatic r)) l flag = Inr m"
    for e l flag
    using False by (simp add: calculateMaintainabilityIndex_def Let_def)
  then obtain m where
    "calculateMaintainabilityIndex (averagesOf r ! 2) (Fin (averageCyclomatic r))
       (averagesOf r ! 0) (newmi st) = Inr m"
    by blast
  then have "\<exists>r'. calculateMetrics st r = Inr r' \<and> maintainability r' = Some m \<and>
               m_cyclomatic r' = Some (Fin (averageCyclomatic r))"
    unfolding calculateMetrics_alt average_cyclomatic by simp
  with False show ?thesis by auto
qed

text \<open>Concrete walks.\<close>

lemmas walk_simps = walk_def initialAnalysis_def createReport_def createFunctionReport_def
  createInitialHalsteadState_def createInitialHalsteadItemState_def pushScope_def popScope_def
  processNode_def processLloc_def processCyclomatic_def processOperators_def processOperands_def
  processHalsteadMetric_def processDependencies_def incrementCounter_def
  incrementLogicalSloc_def incrementCyclomatic_def halsteadItemEncountered_def onAggregate_def
  onCurrent_def addLogical_def addCyclomatic_def descriptors_def incrementHalsteadItems_def
  incrementTotalHalsteadItems_def incrementHalsteadMetric_def isHalsteadMetricDistinct_def
  recordDistinctHalsteadMetric_def increment_guarded guarded.simps standardOwnProperties_def
  Let_def

definition negativeBranch :: "unit syntax_descriptor" where
  "negativeBranch =
     \<lparr>s_lloc = NoAmount, s_cyclomatic = Literal (- 1), s_operators = None, s_operands = None,
      s_dependencies = None\<rparr>"

lemma negative_walk:
  "report (walk standardOwnProperties None [ProcessNode () negativeBranch])
     = (createReport None)\<lparr>aggregate := (createFunctionReport None None 0)\<lparr>cyclomatic := 0\<rparr>\<rparr>"
  by (simp add: walk_simps negativeBranch_def)

definition hugeStatement :: "unit syntax_descriptor" where
  "hugeStatement =
     \<lparr>s_lloc = Literal 200000, s_cyclomatic = NoAmount,
      s_operators = Some [\<lparr>h_identifier = Inl ''='', h_filter = None\<rparr>],
      s_operands = Some [\<lparr>h_identifier = Inl ''x'', h_filter = None\<rparr>],
      s_dependencies = None\<rparr>"

lemma huge_walk:
  "report (walk standardOwnProperties None [ProcessNode () hugeStatement])
     = (createReport None)\<lparr>aggregate := (createFunctionReport None None 0)
          \<lparr>sloc := \<lparr>logical = 200000, physical = None\<rparr>,
           halstead := createInitialHalsteadState
             \<lparr>operators := \<lparr>distinct = 1, identifiers = [''=''], total = 1\<rparr>,
              operands := \<lparr>distinct = 1, identifiers = [''x''], total = 1\<rparr>\<rparr>\<rparr>\<rparr>"
  by (simp add: walk_simps hugeStatement_def)

lemma scope_walk:
  "walk standardOwnProperties None [CreateScope (Some ''f'') None 0, PopScope]
     = (initialAnalysis None)\<lparr>report := (createReport None)
          \<lparr>functionReports := [createFunctionReport (Some ''f'') None 0]\<rparr>\<rparr>"
  by (simp add: walk_simps)


lemmas metric_simps = calculateMetrics_def finaliseReport_def calculateCyclomaticDensity_def
  calculateHalsteadMetrics_def nilHalsteadMetrics_def sumMaintainabilityMetrics_def
  calculateMaintainabilityIndex_def createReport_def createFunctionReport_def
  createInitialHalsteadState_def createInitialHalsteadItemState_def defaultSettings_def
  num_def natnum_def toNumber_def jsub_def jgreater_def jmax_def inf_of_sign_def Let_def

lemma ln_200000: "11 \<le> ln (200000 :: real)"
proof -
  have "exp (11 :: real) = exp 1 ^ 11"
    using exp_of_nat_mult [of 11 "1 :: real"] by simp
  also have "\<dots> \<le> 3 ^ 11"
    by (rule power_mono) (simp_all add: exp_le)
  also have "\<dots> \<le> (200000 :: real)" by simp
  finally show ?thesis
    by (simp add: ln_ge_iff)
qed

lemma empty_metrics:
  "calculateMetrics defaultSettings (createReport None) =
     Inr ((createReport None)
       \<lparr>aggregate := finaliseReport (createFunctionReport None None 0),
        maintainability := Some (Fin 171), m_loc := Some (Fin 0), m_cyclomatic := Some (Fin 1),
        m_effort := Some (Fin 0), m_params := Some (Fin 0)\<rparr>)"
  by (simp add: metric_simps)

lemma huge_metrics:
  "\<exists>r'. calculateMetrics defaultSettings
           (report (walk standardOwnProperties None [ProcessNode () hugeStatement])) = Inr r' \<and>
         maintainability r' = Some (Fin (171 - 162 / 10 * ln 200000))"
  unfolding huge_walk using ln_200000
  by (simp add: metric_simps)

lemma scope_metrics:
  "\<exists>r'. calculateMetrics defaultSettings
           (report (walk standardOwnProperties None [CreateScope (Some ''f'') None 0, PopScope])) = Inr r' \<and>
         cyclomaticDensity (functionReports r' ! 0) = Some PosInf"
  unfolding scope_walk
  by (simp add: metric_simps initialAnalysis_def)


definition emptyTree :: "unit ast" where
  "emptyTree = \<lparr>loc = None, tree = ()\<rparr>"

theorem zero_cyclomatic_raises_witness:
  "averageCyclomatic (report (walk standardOwnProperties None [ProcessNode () negativeBranch])) = 0 \<and>
   calculateMetrics defaultSettings
     (report (walk standardOwnProperties None [ProcessNode () negativeBranch])) = Inl ZeroCyclomatic \<and>
   averageCyclomatic (createReport None) \<noteq> 0 \<and>
   (\<exists>r'. calculateMetrics defaultSettings (createReport None) = Inr r' \<and>
         maintainability r' = Some (Fin 171) \<and> m_cyclomatic r' = Some (Fin 1))"
proof -
  let ?r0 = "report (walk standardOwnProperties None [ProcessNode () negativeBranch])"
  have z: "averageCyclomatic ?r0 = 0"
    unfolding negative_walk
    by (simp add: averageCyclomatic_def createReport_def createFunctionReport_def)
  have raises: "calculateMetrics defaultSettings ?r0 = Inl ZeroCyclomatic"
    using zero_cyclomatic_raises [of defaultSettings ?r0] z by blast
  have nz: "averageCyclomatic (createReport None) = 1"
    by (simp add: averageCyclomatic_def createReport_def createFunctionReport_def)
  from zero_cyclomatic_raises [of defaultSettings "createReport None"] nz
  obtain r' where c: "calculateMetrics defaultSettings (createReport None) = Inr r'"
    and a: "m_cyclomatic r' = Some (Fin 1)"
    by auto
  let ?rec = "(createReport None)
       \<lparr>aggregate := finaliseReport (createFunctionReport None None 0),
        maintainability := Some (Fin 171), m_loc := Some (Fin 0), m_cyclomatic := Some (Fin 1),
        m_effort := Some (Fin 0), m_params := Some (Fin 0)\<rparr>"
  have "(Inr ?rec :: error + module_report) = Inr r'"
    using c unfolding empty_metrics .
  then have "r' = ?rec" by simp
  then have "maintainability r' = Some (Fin 171)" by simp
  with c a z raises nz show ?thesis by auto
qed

subsection \<open>Who changes a function report\<close>































subsection \<open>The range of the maintainability index\<close>


text \<open>
  What the walk keeps true of every Halstead bag: \<open>distinct\<close> is the number of recorded
  identifiers, and a bag that has counted a token has recorded an identifier.
\<close>

definition bagOK :: "halstead_item \<Rightarrow> bool" where
  "bagOK b \<longleftrightarrow> distinct b = length (identifiers b) \<and> (total b = 0 \<or> identifiers b \<noteq> [])"

definition bagsOK :: "function_report \<Rightarrow> bool" where
  "bagsOK r \<longleftrightarrow> bagOK (operators (halstead r)) \<and> bagOK (operands (halstead r))"

text \<open>A property of the aggregate and of every function report.\<close>

definition everyReport :: "(function_report \<Rightarrow> bool) \<Rightarrow> module_report \<Rightarrow> bool" where
  "everyReport Q r \<longleftrightarrow> Q (aggregate r) \<and> list_all Q (functionReports r)"

lemma everyReport_onAggregate:
  assumes "everyReport Q (report st)" and "\<And>r. Q r \<Longrightarrow> Q (f r)"
  shows "everyReport Q (report (onAggregate f st))"
  using assms by (simp add: everyReport_def)

lemma list_all_update:
  assumes "list_all Q xs" and "\<And>x. Q x \<Longrightarrow> Q (f x)"
  shows "list_all Q (xs[i := f (xs ! i)])"
proof (cases "i < length xs")
  case True
  then have "Q (f (xs ! i))"
    using assms by (simp add: list_all_length)
  with assms(1) show ?thesis
    by (auto simp: list_all_iff dest!: set_update_subset_insert [THEN subsetD])
next
  case False
  then have "length xs \<le> i" by (simp add: not_less)
  then have "xs[i := f (xs ! i)] = xs" by (rule list_update_beyond)
  with assms(1) show ?thesis by simp
qed

lemma everyReport_onCurrent:
  assumes "everyReport Q (report st)" and "\<And>r. Q r \<Longrightarrow> Q (f r)"
  shows "everyReport Q (report (onCurrent f st))"
  using assms list_all_update [of Q "functionReports (report st)" f]
  by (auto simp: everyReport_def onCurrent_functionReports split: option.splits)

lemma everyReport_processHalsteadMetric:
  assumes "everyReport Q (report st)"
    and "\<And>r m ident. Q r \<Longrightarrow> Q (incrementHalsteadItems own r m ident)"
  shows "everyReport Q (report (processHalsteadMetric own node syn m st))"
proof -
  let ?body = "\<lambda>st s.
                   (let ident = (case h_identifier s of Inl str \<Rightarrow> str | Inr f \<Rightarrow> f node)
                    in if (case h_filter s of None \<Rightarrow> True | Some f \<Rightarrow> f node)
                       then halsteadItemEncountered own m ident st else st)"
  have one: "everyReport Q (report (halsteadItemEncountered own m ident st))"
    if "everyReport Q (report st)" for ident st
    unfolding halsteadItemEncountered_def
    by (intro everyReport_onAggregate everyReport_onCurrent that assms(2))
  have fold: "everyReport Q (report st) \<Longrightarrow> everyReport Q (report (foldl ?body st ds))"
    for ds :: "'a halstead_descriptor list" and st
  proof (induction ds arbitrary: st)
    case Nil
    then show ?case by simp
  next
    case (Cons s ds)
    have "everyReport Q (report (?body st s))"
      using Cons.prems one by (simp add: Let_def)
    from Cons.IH [OF this] show ?case by simp
  qed
  show ?thesis
  proof (cases "descriptors m syn")
    case None
    with assms(1) show ?thesis by (simp add: processHalsteadMetric_def)
  next
    case (Some ds)
    then have "processHalsteadMetric own node syn m st = foldl ?body st ds"
      by (simp add: processHalsteadMetric_def)
    with fold [OF assms(1), of ds] show ?thesis by simp
  qed
qed

lemma everyReport_processLloc:
  assumes "everyReport Q (report st)"
    and "\<And>r. Q r \<Longrightarrow> Q (addLogical (amountOf node (s_lloc syn)) r)"
  shows "everyReport Q (report (processLloc node syn st))"
proof (cases "s_lloc syn")
  case NoAmount
  with assms(1) show ?thesis by (simp add: processLloc_def incrementCounter_def)
next
  case (Literal x)
  then have "processLloc node syn st = incrementLogicalSloc (amountOf node (s_lloc syn)) st"
    by (simp add: processLloc_def incrementCounter_def amountOf_def)
  then show ?thesis
    unfolding incrementLogicalSloc_def
    using assms by (simp add: everyReport_onAggregate everyReport_onCurrent)
next
  case (Computed g)
  then have "processLloc node syn st = incrementLogicalSloc (amountOf node (s_lloc syn)) st"
    by (simp add: processLloc_def incrementCounter_def amountOf_def)
  then show ?thesis
    unfolding incrementLogicalSloc_def
    using assms by (simp add: everyReport_onAggregate everyReport_onCurrent)
qed

lemma everyReport_processCyclomatic:
  assumes "everyReport Q (report st)"
    and "\<And>r. Q r \<Longrightarrow> Q (addCyclomatic (amountOf node (s_cyclomatic syn)) r)"
  shows "everyReport Q (report (processCyclomatic node syn st))"
proof (cases "s_cyclomatic syn")
  case NoAmount
  with assms(1) show ?thesis by (simp add: processCyclomatic_def incrementCounter_def)
next
  case (Literal x)
  then have "processCyclomatic node syn st
               = incrementCyclomatic (amountOf node (s_cyclomatic syn)) st"
    by (simp add: processCyclomatic_def incrementCounter_def amountOf_def)
  then show ?thesis
    unfolding incrementCyclomatic_def
    using assms by (simp add: everyReport_onAggregate everyReport_onCurrent)
next
  case (Computed g)
  then have "processCyclomatic node syn st
               = incrementCyclomatic (amountOf node (s_cyclomatic syn)) st"
    by (simp add: processCyclomatic_def incrementCounter_def amountOf_def)
  then show ?thesis
    unfolding incrementCyclomatic_def
    using assms by (simp add: everyReport_onAggregate everyReport_onCurrent)
qed

lemma everyReport_processNode:
  assumes "everyReport Q (report st)"
    and "\<And>r m ident. Q r \<Longrightarrow> Q (incrementHalsteadItems own r m ident)"
    and "\<And>r. Q r \<Longrightarrow> Q (addLogical (amountOf node (s_lloc syn)) r)"
    and "\<And>r. Q r \<Longrightarrow> Q (addCyclomatic (amountOf node (s_cyclomatic syn)) r)"
  shows "everyReport Q (report (processNode own node syn st))"
proof -
  let ?st1 = "processLloc node syn st"
  let ?st2 = "processCyclomatic node syn ?st1"
  let ?st3 = "processOperators own node syn ?st2"
  let ?st4 = "processOperands own node syn ?st3"
  have 1: "everyReport Q (report ?st1)"
    using assms(1,3) by (rule everyReport_processLloc)
  have 2: "everyReport Q (report ?st2)"
    using 1 assms(4) by (rule everyReport_processCyclomatic)
  have 3: "everyReport Q (report ?st3)"
    unfolding processOperators_def using 2 assms(2) by (rule everyReport_processHalsteadMetric)
  have 4: "everyReport Q (report ?st4)"
    unfolding processOperands_def using 3 assms(2) by (rule everyReport_processHalsteadMetric)
  have eq: "processNode own node syn st =
      (let p = processDependencies node syn (clearDependencies ?st4) ?st4
       in if fst p then (snd p)\<lparr>clearDependencies := False\<rparr> else snd p)"
    by (simp add: processNode_def Let_def split: prod.splits)
  have "aggregate (report (processNode own node syn st)) = aggregate (report ?st4)"
    "functionReports (report (processNode own node syn st)) = functionReports (report ?st4)"
    unfolding eq
    by (simp_all add: processDependencies_def Let_def
        split: option.splits dependency_result.splits)
  with 4 show ?thesis
    by (simp add: everyReport_def)
qed


text \<open>The amounts one callback call adds.\<close>

fun llocOf :: "'n event \<Rightarrow> int" where
  "llocOf (ProcessNode node syn) = amountOf node (s_lloc syn)"
| "llocOf _ = 0"

fun cyclomaticOf :: "'n event \<Rightarrow> int" where
  "cyclomaticOf (ProcessNode node syn) = amountOf node (s_cyclomatic syn)"
| "cyclomaticOf _ = 0"

text \<open>A walk that hands out no negative amount.\<close>

definition nonNegativeAmounts :: "'n event list \<Rightarrow> bool" where
  "nonNegativeAmounts evs = list_all (\<lambda>ev. 0 \<le> llocOf ev \<and> 0 \<le> cyclomaticOf ev) evs"

lemma everyReport_callback:
  assumes "everyReport Q (report st)"
    and "\<And>nm lines ps. Q (createFunctionReport nm lines ps)"
    and "\<And>r x. Q r \<Longrightarrow> Q (r\<lparr>params := x\<rparr>)"
    and "\<And>r m ident. Q r \<Longrightarrow> Q (incrementHalsteadItems own r m ident)"
    and "\<And>r. Q r \<Longrightarrow> Q (addLogical (llocOf ev) r)"
    and "\<And>r. Q r \<Longrightarrow> Q (addCyclomatic (cyclomaticOf ev) r)"
  shows "everyReport Q (report (callback own st ev))"
proof (cases ev)
  case (CreateScope nm lines ps)
  with assms(1,2,3) show ?thesis
    by (simp add: everyReport_def pushScope_def Let_def)
next
  case PopScope
  with assms(1) show ?thesis
    by (simp add: everyReport_def popScope_def Let_def)
next
  case (ProcessNode node syn)
  with assms(5,6) have
    "\<And>r. Q r \<Longrightarrow> Q (addLogical (amountOf node (s_lloc syn)) r)"
    "\<And>r. Q r \<Longrightarrow> Q (addCyclomatic (amountOf node (s_cyclomatic syn)) r)"
    by simp_all
  with assms(1,4) have "everyReport Q (report (processNode own node syn st))"
    by (intro everyReport_processNode)
  with ProcessNode show ?thesis by simp
qed

lemma everyReport_walk:
  assumes "\<And>nm lines ps. Q (createFunctionReport nm lines ps)"
    and "\<And>r x. Q r \<Longrightarrow> Q (r\<lparr>params := x\<rparr>)"
    and "\<And>r m ident. Q r \<Longrightarrow> Q (incrementHalsteadItems own r m ident)"
    and "\<And>r ev. ev \<in> set evs \<Longrightarrow> Q r \<Longrightarrow> Q (addLogical (llocOf ev) r)"
    and "\<And>r ev. ev \<in> set evs \<Longrightarrow> Q r \<Longrightarrow> Q (addCyclomatic (cyclomaticOf ev) r)"
  shows "everyReport Q (report (walk own lines evs))"
proof -
  have "everyReport Q (report st) \<Longrightarrow> set es \<subseteq> set evs \<Longrightarrow>
        everyReport Q (report (foldl (callback own) st es))" for st es
  proof (induction es arbitrary: st)
    case Nil
    then show ?case by simp
  next
    case (Cons e es)
    then have "e \<in> set evs" by simp
    then have "everyReport Q (report (callback own st e))"
      using Cons.prems(1) assms by (intro everyReport_callback) blast+
    with Cons show ?case by simp
  qed
  moreover have "everyReport Q (report (initialAnalysis lines))"
    using assms(1) by (simp add: everyReport_def initialAnalysis_def createReport_def)
  ultimately show ?thesis
    by (simp add: walk_def)
qed

lemma bagOK_incrementHalsteadItems:
  assumes "bagsOK r"
  shows "bagsOK (incrementHalsteadItems own r m ident)"
proof -
  have other: "bag m' (halstead (incrementHalsteadItems own r m ident)) = bag m' (halstead r)"
    if "m' \<noteq> m" for m'
    using that
    by (cases m; cases m')
       (simp_all add: incrementHalsteadItems_def incrementTotalHalsteadItems_def
          incrementHalsteadMetric_def increment_guarded recordDistinctHalsteadMetric_def Let_def)
  have same: "bagOK (bag m (halstead r)) \<Longrightarrow>
      bagOK (bag m (halstead (incrementHalsteadItems own r m ident)))"
    by (auto simp: bag_incrementHalsteadItems bagOK_def)
  show ?thesis
  proof (cases m)
    case Operators
    with assms same other [of Operands] show ?thesis
      by (simp add: bagsOK_def)
  next
    case Operands
    with assms same other [of Operators] show ?thesis
      by (simp add: bagsOK_def)
  qed
qed

lemma bagsOK_walk: "everyReport bagsOK (report (walk own lines evs))"
proof (rule everyReport_walk)
  show "bagsOK (createFunctionReport nm lines ps)" for nm lines ps
    by (simp add: bagsOK_def bagOK_def createFunctionReport_def createInitialHalsteadState_def
        createInitialHalsteadItemState_def)
  show "bagsOK (r\<lparr>params := x\<rparr>)" if "bagsOK r" for r x
    using that by (simp add: bagsOK_def)
  show "bagsOK (incrementHalsteadItems own r m ident)" if "bagsOK r" for r m ident
    using that by (rule bagOK_incrementHalsteadItems)
  show "bagsOK (addLogical (llocOf ev) r)" if "bagsOK r" for r and ev :: "'a event"
    using that by (simp add: bagsOK_def addLogical_def)
  show "bagsOK (addCyclomatic (cyclomaticOf ev) r)" if "bagsOK r" for r and ev :: "'a event"
    using that by (simp add: bagsOK_def addCyclomatic_def)
qed

text \<open>Reports with a cyclomatic complexity of at least 1 and no negative logical SLOC.\<close>

definition counted :: "function_report \<Rightarrow> bool" where
  "counted r \<longleftrightarrow> 1 \<le> cyclomatic r \<and> 0 \<le> logical (sloc r)"

lemma counted_walk:
  assumes "nonNegativeAmounts evs"
  shows "everyReport counted (report (walk own lines evs))"
proof (rule everyReport_walk)
  show "counted (createFunctionReport nm lines ps)" for nm lines ps
    by (simp add: counted_def createFunctionReport_def)
  show "counted (r\<lparr>params := x\<rparr>)" if "counted r" for r x
    using that by (simp add: counted_def)
  show "counted (incrementHalsteadItems own r m ident)" if "counted r" for r m ident
    using that frame_incrementDistinct(2,3) [of own r m ident]
    by (simp add: counted_def incrementHalsteadItems_def incrementTotalHalsteadItems_def
        incrementHalsteadMetric_def Let_def)
  show "counted (addLogical (llocOf ev) r)" if "ev \<in> set evs" "counted r" for r ev
    using that assms by (auto simp: counted_def addLogical_def nonNegativeAmounts_def list_all_iff)
  show "counted (addCyclomatic (cyclomaticOf ev) r)" if "ev \<in> set evs" "counted r" for r ev
    using that assms by (auto simp: counted_def addCyclomatic_def nonNegativeAmounts_def list_all_iff)
qed


lemma effort_calculateHalsteadMetrics:
  assumes "total (operators h) + total (operands h) \<noteq> 0"
  shows "effort (calculateHalsteadMetrics h) =
     Some (jmul
       (jmul (jdiv (natnum (distinct (operators h))) (Fin 2))
          (if distinct (operands h) = 0 then Fin 1
           else jdiv (natnum (total (operands h))) (natnum (distinct (operands h)))))
       (jmul (natnum (total (operators h) + total (operands h)))
          (jdiv (jlog (natnum (distinct (operators h) + distinct (operands h)))) (jlog (Fin 2)))))"
proof -
  have "(total (operators h) + total (operands h) = 0) = False"
    using assms by simp
  then show ?thesis
    unfolding calculateHalsteadMetrics_def Let_def by (simp only: if_False) simp
qed

text \<open>The Halstead effort of a report of a walk is a real number, and not negative.\<close>

lemma effort_finite:
  assumes "bagsOK r"
  shows "\<exists>e. 0 \<le> e \<and> toNumber (effort (halstead (finaliseReport r))) = Fin e"
proof -
  let ?h = "halstead r"
  let ?len = "total (operators ?h) + total (operands ?h)"
  let ?v = "distinct (operators ?h) + distinct (operands ?h)"
  show ?thesis
  proof (cases "?len = 0")
    case True
    then show ?thesis
      by (simp add: finaliseReport_def calculateCyclomaticDensity_def calculateHalsteadMetrics_def
          nilHalsteadMetrics_def toNumber_def Let_def)
  next
    case False
    have ne: "xs \<noteq> [] \<Longrightarrow> 1 \<le> length xs" for xs :: "string list"
      by (cases xs) simp_all
    from False have v: "1 \<le> ?v"
      using assms ne [of "identifiers (operators ?h)"] ne [of "identifiers (operands ?h)"]
      by (auto simp: bagsOK_def bagOK_def)
    then have lnv: "0 \<le> ln (real ?v)" by simp
    have ln2: "0 < ln (2 :: real)" by simp
    have vol: "jmul (natnum ?len) (jdiv (jlog (natnum ?v)) (jlog (Fin 2)))
                 = Fin (real ?len * (ln (real ?v) / ln 2))"
      using v by (simp add: natnum_def)
    define d where "d = real (distinct (operators ?h)) / 2 *
        (if distinct (operands ?h) = 0 then 1
         else real (total (operands ?h)) / real (distinct (operands ?h)))"
    have d: "0 \<le> d"
      "jmul (jdiv (natnum (distinct (operators ?h))) (Fin 2))
          (if distinct (operands ?h) = 0 then Fin 1
           else jdiv (natnum (total (operands ?h))) (natnum (distinct (operands ?h)))) = Fin d"
      by (simp_all add: d_def natnum_def)
    have "effort (halstead (finaliseReport r)) = effort (calculateHalsteadMetrics ?h)"
      by (simp add: finaliseReport_def calculateCyclomaticDensity_def)
    also have "\<dots> = Some (jmul (Fin d) (Fin (real ?len * (ln (real ?v) / ln 2))))"
      unfolding effort_calculateHalsteadMetrics [OF False] d(2) vol by (rule refl)
    finally have eff: "effort (halstead (finaliseReport r))
                 = Some (jmul (Fin d) (Fin (real ?len * (ln (real ?v) / ln 2))))" .
    have "0 \<le> d * (real ?len * (ln (real ?v) / ln 2))"
      using d(1) lnv ln2 by (intro mult_nonneg_nonneg divide_nonneg_pos) simp_all
    with eff show ?thesis
      by (simp add: toNumber_def)
  qed
qed

text \<open>The average logical SLOC, as the average cyclomatic complexity above.\<close>

definition averageLoc :: "module_report \<Rightarrow> real" where
  "averageLoc r =
     (if functionReports r = [] then real_of_int (logical (sloc (aggregate r)))
      else real_of_int (\<Sum>f\<leftarrow>functionReports r. logical (sloc f))
             / real (length (functionReports r)))"

lemma sums_loc:
  "length s = 4 \<Longrightarrow> s ! 0 = Fin x \<Longrightarrow>
   foldl sumMaintainabilityMetrics s fs ! 0 = Fin (x + real_of_int (\<Sum>f\<leftarrow>fs. logical (sloc f)))"
proof (induction fs arbitrary: s x)
  case Nil
  then show ?case by simp
next
  case (Cons f fs)
  have "length (sumMaintainabilityMetrics s f) = 4"
    and "sumMaintainabilityMetrics s f ! 0 = Fin (x + real_of_int (logical (sloc f)))"
    using Cons.prems by (simp_all add: sumMaintainabilityMetrics_def num_def)
  from Cons.IH [OF this] show ?case
    by (simp add: add.assoc)
qed

lemma sums_effort:
  "length s = 4 \<Longrightarrow> s ! 2 = Fin x \<Longrightarrow> 0 \<le> x \<Longrightarrow>
   list_all (\<lambda>f. \<exists>e. 0 \<le> e \<and> toNumber (effort (halstead f)) = Fin e) fs \<Longrightarrow>
   \<exists>y. 0 \<le> y \<and> foldl sumMaintainabilityMetrics s fs ! 2 = Fin y"
proof (induction fs arbitrary: s x)
  case Nil
  then show ?case by simp
next
  case (Cons f fs)
  from Cons.prems(4) obtain e where e: "0 \<le> e" "toNumber (effort (halstead f)) = Fin e"
    by auto
  have "length (sumMaintainabilityMetrics s f) = 4"
    and "sumMaintainabilityMetrics s f ! 2 = Fin (x + e)"
    using Cons.prems(1,2) e by (simp_all add: sumMaintainabilityMetrics_def)
  moreover have "0 \<le> x + e" using Cons.prems(3) e by simp
  moreover have "list_all (\<lambda>f. \<exists>e. 0 \<le> e \<and> toNumber (effort (halstead f)) = Fin e) fs"
    using Cons.prems(4) by simp
  ultimately show ?case
    using Cons.IH by simp
qed

lemma average_loc: "averagesOf r ! 0 = Fin (averageLoc r)"
proof -
  let ?fs = "map finaliseReport (functionReports r)"
  let ?s0 = "foldl sumMaintainabilityMetrics [Fin 0, Fin 0, Fin 0, Fin 0] ?fs"
  have l: "(\<Sum>f\<leftarrow>?fs. logical (sloc f)) = (\<Sum>f\<leftarrow>functionReports r. logical (sloc f))"
    by (simp add: comp_def finaliseReport_frame)
  have len: "length ?s0 = 4"
    using sums_cyclomatic [of "[Fin 0, Fin 0, Fin 0, Fin 0]" 0 ?fs] by simp
  have s0: "?s0 ! 0 = Fin (real_of_int (\<Sum>f\<leftarrow>functionReports r. logical (sloc f)))"
    using sums_loc [of "[Fin 0, Fin 0, Fin 0, Fin 0]" 0 ?fs] l by simp
  show ?thesis
  proof (cases "functionReports r = []")
    case True
    then show ?thesis
      by (simp add: averagesOf_def averageLoc_def sumMaintainabilityMetrics_def
          num_def natnum_def finaliseReport_frame)
  next
    case False
    then have "averagesOf r = map (\<lambda>s. jdiv s (natnum (length (functionReports r)))) ?s0"
      by (simp add: averagesOf_def Let_def)
    then show ?thesis
      using s0 len False by (simp add: averageLoc_def natnum_def)
  qed
qed

lemma average_effort:
  assumes "everyReport bagsOK r"
  shows "\<exists>e. 0 \<le> e \<and> averagesOf r ! 2 = Fin e"
proof -
  let ?fs = "map finaliseReport (functionReports r)"
  let ?s0 = "foldl sumMaintainabilityMetrics [Fin 0, Fin 0, Fin 0, Fin 0] ?fs"
  have all: "list_all (\<lambda>f. \<exists>e. 0 \<le> e \<and> toNumber (effort (halstead f)) = Fin e) ?fs"
    using assms effort_finite by (auto simp: everyReport_def list_all_iff)
  have len: "length ?s0 = 4"
    using sums_cyclomatic [of "[Fin 0, Fin 0, Fin 0, Fin 0]" 0 ?fs] by simp
  from sums_effort [of "[Fin 0, Fin 0, Fin 0, Fin 0]" 0 ?fs] all
  obtain y where y: "0 \<le> y" "?s0 ! 2 = Fin y" by auto
  show ?thesis
  proof (cases "functionReports r = []")
    case True
    from assms effort_finite [of "aggregate r"] obtain e where
      "0 \<le> e" "toNumber (effort (halstead (finaliseReport (aggregate r)))) = Fin e"
      by (auto simp: everyReport_def)
    with True show ?thesis
      by (simp add: averagesOf_def sumMaintainabilityMetrics_def natnum_def)
  next
    case False
    then have "averagesOf r = map (\<lambda>s. jdiv s (natnum (length (functionReports r)))) ?s0"
      by (simp add: averagesOf_def Let_def)
    then have "averagesOf r ! 2 = Fin (y / real (length (functionReports r)))"
      using y len False by (simp add: natnum_def)
    with y(1) show ?thesis by simp
  qed
qed


text \<open>
  The index for real averages, the effort not negative and the cyclomatic complexity not 0:
  NaN when the cyclomatic complexity or the logical SLOC is negative, and a real number
  within the bounds otherwise.
\<close>

lemma clamp_cases:
  fixes m0 :: jsnum
  assumes "m0 = PosInf \<or> (\<exists>y. m0 = Fin y)"
  shows "\<exists>x. (if jgreater m0 (Fin 171) then Fin 171 else m0) = Fin x \<and> x \<le> 171"
  using assms by (auto simp: jgreater_def)

lemma renormalise_cases:
  assumes "x \<le> 171"
  shows "\<exists>z. jmax (Fin 0) (jdiv (jmul (Fin x) (Fin 100)) (Fin 171)) = Fin z \<and> 0 \<le> z \<and> z \<le> 100"
proof (cases "0 < x")
  case True
  then have "jmax (Fin 0) (jdiv (jmul (Fin x) (Fin 100)) (Fin 171)) = Fin (x * 100 / 171)"
    by (simp add: jmax_def)
  moreover have "0 \<le> x * 100 / 171" "x * 100 / 171 \<le> 100"
    using True assms by simp_all
  ultimately show ?thesis by blast
next
  case False
  then have "jmax (Fin 0) (jdiv (jmul (Fin x) (Fin 100)) (Fin 171)) = Fin 0"
    by (simp add: jmax_def)
  then show ?thesis by simp
qed

lemma index_shape:
  assumes "0 \<le> e" and "0 < c" and "0 \<le> l"
  shows "jsub (jsub (jsub (Fin 171) (jmul (Fin (342 / 100)) (jlog (Fin e))))
                          (jmul (Fin (23 / 100)) (jlog (Fin c))))
                    (jmul (Fin (162 / 10)) (jlog (Fin l))) = PosInf \<or>
         (\<exists>y. jsub (jsub (jsub (Fin 171) (jmul (Fin (342 / 100)) (jlog (Fin e))))
                          (jmul (Fin (23 / 100)) (jlog (Fin c))))
                    (jmul (Fin (162 / 10)) (jlog (Fin l))) = Fin y)"
  using assms by (cases "e = 0"; cases "l = 0") (simp_all add: jsub_def inf_of_sign_def)

lemma index_nan:
  assumes "0 \<le> e" and "c < 0 \<or> (0 < c \<and> l < 0)"
  shows "jsub (jsub (jsub (Fin 171) (jmul (Fin (342 / 100)) (jlog (Fin e))))
                          (jmul (Fin (23 / 100)) (jlog (Fin c))))
                    (jmul (Fin (162 / 10)) (jlog (Fin l))) = NaN"
  using assms
  by (cases "e = 0"; cases "l = 0"; cases "l < 0") (auto simp: jsub_def inf_of_sign_def)

lemma maintainability_value:
  assumes "0 \<le> e" and "c \<noteq> 0"
  shows "\<exists>m. calculateMaintainabilityIndex (Fin e) (Fin c) (Fin l) flag = Inr m \<and>
     (if c < 0 \<or> l < 0 then m = NaN
      else \<exists>x. m = Fin x \<and> x \<le> 171 \<and> (flag \<longrightarrow> 0 \<le> x \<and> x \<le> 100))"
proof -
  let ?m0 = "jsub (jsub (jsub (Fin 171) (jmul (Fin (342 / 100)) (jlog (Fin e))))
                          (jmul (Fin (23 / 100)) (jlog (Fin c))))
                    (jmul (Fin (162 / 10)) (jlog (Fin l)))"
  let ?m1 = "if jgreater ?m0 (Fin 171) then Fin 171 else ?m0"
  let ?m2 = "if flag then jmax (Fin 0) (jdiv (jmul ?m1 (Fin 100)) (Fin 171)) else ?m1"
  have r: "calculateMaintainabilityIndex (Fin e) (Fin c) (Fin l) flag = Inr ?m2"
    using assms(2) unfolding calculateMaintainabilityIndex_def Let_def by simp
  show ?thesis
  proof (cases "c < 0 \<or> l < 0")
    case True
    then have "c < 0 \<or> (0 < c \<and> l < 0)"
      using assms(2) by auto
    from index_nan [OF assms(1) this] have "?m0 = NaN" .
    then have "?m2 = NaN"
      by (simp add: jgreater_def jmax_def)
    with r True show ?thesis by simp
  next
    case False
    then have "0 < c" "0 \<le> l" using assms(2) by auto
    from clamp_cases [OF index_shape [OF assms(1) this]]
    obtain x where x: "?m1 = Fin x" "x \<le> 171" by blast
    show ?thesis
    proof (cases flag)
      case True
      from renormalise_cases [OF x(2)] obtain z where
        "jmax (Fin 0) (jdiv (jmul (Fin x) (Fin 100)) (Fin 171)) = Fin z" "0 \<le> z" "z \<le> 100"
        by blast
      then have "?m2 = Fin z \<and> z \<le> 171 \<and> 0 \<le> z \<and> z \<le> 100"
        unfolding x(1) using True by simp
      with r False show ?thesis by auto
    next
      case flag: False
      then have "?m2 = Fin x"
        unfolding x(1) by simp
      with r False flag x(2) show ?thesis by auto
    qed
  qed
qed


lemma counted_sums:
  "list_all counted fs \<Longrightarrow>
   int (length fs) \<le> (\<Sum>f\<leftarrow>fs. cyclomatic f) \<and> 0 \<le> (\<Sum>f\<leftarrow>fs. logical (sloc f))"
  by (induction fs) (auto simp: counted_def)

lemma counted_averages:
  assumes "everyReport counted r"
  shows "0 < averageCyclomatic r \<and> 0 \<le> averageLoc r"
proof (cases "functionReports r = []")
  case True
  with assms show ?thesis
    by (simp add: everyReport_def counted_def averageCyclomatic_def averageLoc_def)
next
  case False
  then have n: "0 < length (functionReports r)" by simp
  from assms have "list_all counted (functionReports r)"
    by (simp add: everyReport_def)
  from counted_sums [OF this]
  have le: "int (length (functionReports r)) \<le> (\<Sum>f\<leftarrow>functionReports r. cyclomatic f)"
    and nn: "0 \<le> (\<Sum>f\<leftarrow>functionReports r. logical (sloc f))"
    by simp_all
  from n have "0 < int (length (functionReports r))" by (simp only: of_nat_0_less_iff)
  with le have "0 < (\<Sum>f\<leftarrow>functionReports r. cyclomatic f)" by linarith
  note pos = this nn
  with False n show ?thesis
    by (simp add: averageCyclomatic_def averageLoc_def)
qed

text \<open>
  Claim C3 (amended). For a module report returned by \<open>analyse\<close>, the maintainability is
  set, and so are the average cyclomatic complexity \<open>c\<close>, which is not 0, and the average
  logical SLOC \<open>l\<close>. When \<open>c\<close> or \<open>l\<close> is negative the maintainability is NaN, whatever
  \<open>settings.newmi\<close> is. Otherwise it is a real number, at most 171, and when \<open>newmi\<close> is true
  it lies in the closed interval from 0 to 100; when \<open>newmi\<close> is false there is no lower
  bound. A walk that hands out no negative amount gives \<open>0 < c\<close> and \<open>0 \<le> l\<close>.
\<close>

theorem maintainability_real_bounds:
  assumes "analyse own a walker options = Inr r"
  shows "\<exists>m c l. maintainability r = Some m \<and> m_cyclomatic r = Some (Fin c) \<and>
           m_loc r = Some (Fin l) \<and> c \<noteq> 0 \<and>
           (if c < 0 \<or> l < 0 then m = NaN
            else \<exists>x. m = Fin x \<and> x \<le> 171 \<and>
                     (newmi (settingsOf options) \<longrightarrow> 0 \<le> x \<and> x \<le> 100)) \<and>
           (nonNegativeAmounts (walker a (settingsOf options)) \<longrightarrow> 0 < c \<and> 0 \<le> l)"
proof -
  let ?st = "settingsOf options"
  let ?evs = "walker a ?st"
  let ?r0 = "report (walk own (loc a) ?evs)"
  let ?c = "averageCyclomatic ?r0"
  let ?l = "averageLoc ?r0"
  have calc: "calculateMetrics ?st ?r0 = Inr r"
    using assms by (simp add: analyse_def settingsOf_def Let_def)
  from average_effort [OF bagsOK_walk, of own "loc a" ?evs]
  obtain e where e: "0 \<le> e" "averagesOf ?r0 ! 2 = Fin e" by blast
  have alt: "(case calculateMaintainabilityIndex (Fin e) (Fin ?c) (Fin ?l) (newmi ?st) of
        Inl err \<Rightarrow> Inl err
      | Inr mi \<Rightarrow>
          Inr (?r0\<lparr>functionReports := map finaliseReport (functionReports ?r0),
                 aggregate := finaliseReport (aggregate ?r0), maintainability := Some mi,
                 m_cyclomatic := Some (Fin ?c), m_effort := Some (Fin e),
                 m_loc := Some (Fin ?l), m_params := Some (averagesOf ?r0 ! 3)\<rparr>)) = Inr r"
    using calc unfolding calculateMetrics_alt average_cyclomatic average_loc e(2) .
  have c: "?c \<noteq> 0"
  proof
    assume "?c = 0"
    then have "calculateMaintainabilityIndex (Fin e) (Fin ?c) (Fin ?l) (newmi ?st)
                 = Inl ZeroCyclomatic"
      by (simp add: calculateMaintainabilityIndex_def)
    with alt show False by simp
  qed
  from maintainability_value [OF e(1) c, of ?l "newmi ?st"]
  obtain m where m: "calculateMaintainabilityIndex (Fin e) (Fin ?c) (Fin ?l) (newmi ?st) = Inr m"
    and v: "if ?c < 0 \<or> ?l < 0 then m = NaN
            else \<exists>x. m = Fin x \<and> x \<le> 171 \<and> (newmi ?st \<longrightarrow> 0 \<le> x \<and> x \<le> 100)"
    by blast
  from alt have fields: "maintainability r = Some m" "m_cyclomatic r = Some (Fin ?c)"
    "m_loc r = Some (Fin ?l)"
    unfolding m by auto
  have "0 < ?c \<and> 0 \<le> ?l" if "nonNegativeAmounts ?evs"
    using counted_averages [OF counted_walk [OF that]] .
  with fields c v show ?thesis
    by (intro exI [of _ m] exI [of _ ?c] exI [of _ ?l]) simp
qed


text \<open>A statement of \<open>- 5\<close> logical lines: a descriptor whose \<open>lloc\<close> is negative.\<close>

definition negativeLines :: "unit syntax_descriptor" where
  "negativeLines =
     \<lparr>s_lloc = Literal (- 5), s_cyclomatic = NoAmount, s_operators = None, s_operands = None,
      s_dependencies = None\<rparr>"

definition hugeWalker :: "unit ast \<Rightarrow> settings \<Rightarrow> unit event list" where
  "hugeWalker a st = [ProcessNode () hugeStatement]"

definition negativeWalker :: "unit ast \<Rightarrow> settings \<Rightarrow> unit event list" where
  "negativeWalker a st = [ProcessNode () negativeLines]"

lemma negativeLines_walk:
  "report (walk standardOwnProperties None [ProcessNode () negativeLines])
     = (createReport None)\<lparr>aggregate := (createFunctionReport None None 0)
          \<lparr>sloc := \<lparr>logical = - 5, physical = None\<rparr>\<rparr>\<rparr>"
  by (simp add: walk_simps negativeLines_def)

lemma huge_renormalised:
  "\<exists>r'. calculateMetrics (defaultSettings\<lparr>newmi := True\<rparr>)
           (report (walk standardOwnProperties None [ProcessNode () hugeStatement])) = Inr r' \<and>
         maintainability r' = Some (Fin 0) \<and> m_cyclomatic r' = Some (Fin 1) \<and>
         m_loc r' = Some (Fin 200000)"
proof -
  have "(171 - 162 / 10 * ln (200000 :: real)) * 100 / 171 < 0"
    using ln_200000 by (simp add: divide_less_0_iff)
  then show ?thesis
    unfolding huge_walk using ln_200000
    by (simp add: metric_simps)
qed

lemma negativeLines_metrics:
  "\<exists>r'. calculateMetrics (defaultSettings\<lparr>newmi := True\<rparr>)
           (report (walk standardOwnProperties None [ProcessNode () negativeLines])) = Inr r' \<and>
         maintainability r' = Some NaN \<and> m_cyclomatic r' = Some (Fin 1) \<and>
         m_loc r' = Some (Fin (- 5))"
  unfolding negativeLines_walk
  by (simp add: metric_simps)

theorem maintainability_real_bounds_witness:
  "(\<exists>r. analyse standardOwnProperties emptyTree hugeWalker
           (Some (defaultSettings\<lparr>newmi := True\<rparr>)) = Inr r \<and>
         nonNegativeAmounts (hugeWalker emptyTree (defaultSettings\<lparr>newmi := True\<rparr>)) \<and>
         newmi (settingsOf (Some (defaultSettings\<lparr>newmi := True\<rparr>))) \<and>
         maintainability r = Some (Fin 0) \<and> m_cyclomatic r = Some (Fin 1) \<and>
         m_loc r = Some (Fin 200000) \<and>
         (\<exists>x. maintainability r = Some (Fin x) \<and> 0 \<le> x \<and> x \<le> 100)) \<and>
   (\<exists>r. analyse standardOwnProperties emptyTree negativeWalker
           (Some (defaultSettings\<lparr>newmi := True\<rparr>)) = Inr r \<and>
         \<not> nonNegativeAmounts (negativeWalker emptyTree (defaultSettings\<lparr>newmi := True\<rparr>)) \<and>
         m_loc r = Some (Fin (- 5)) \<and> maintainability r = Some NaN)"
proof -
  let ?st = "defaultSettings\<lparr>newmi := True\<rparr>"
  let ?opts = "Some ?st"
  have n: "newmi (settingsOf ?opts)"
    by (simp add: settingsOf_def)
  from huge_renormalised obtain r where
    "calculateMetrics ?st
       (report (walk standardOwnProperties None [ProcessNode () hugeStatement])) = Inr r"
    and v: "maintainability r = Some (Fin 0)" "m_cyclomatic r = Some (Fin 1)"
           "m_loc r = Some (Fin 200000)"
    by blast
  then have a: "analyse standardOwnProperties emptyTree hugeWalker ?opts = Inr r"
    by (simp add: analyse_def emptyTree_def hugeWalker_def)
  have nn: "nonNegativeAmounts (hugeWalker emptyTree ?st)"
    by (simp add: nonNegativeAmounts_def hugeWalker_def hugeStatement_def amountOf_def)
  from maintainability_real_bounds [OF a] v n
  have x: "\<exists>x. maintainability r = Some (Fin x) \<and> 0 \<le> x \<and> x \<le> 100"
    by auto
  from negativeLines_metrics obtain r' where
    "calculateMetrics ?st
       (report (walk standardOwnProperties None [ProcessNode () negativeLines])) = Inr r'"
    and l: "m_loc r' = Some (Fin (- 5))"
    by blast
  then have a': "analyse standardOwnProperties emptyTree negativeWalker ?opts = Inr r'"
    by (simp add: analyse_def emptyTree_def negativeWalker_def)
  have neg: "\<not> nonNegativeAmounts (negativeWalker emptyTree ?st)"
    by (simp add: nonNegativeAmounts_def negativeWalker_def negativeLines_def amountOf_def)
  from maintainability_real_bounds [OF a'] l
  have nan: "maintainability r' = Some NaN"
    by auto
  from a nn n v x a' neg l nan show ?thesis by blast
qed

text \<open>
  With the default settings, a module of 200000 logical lines with one operator and one
  operand has a negative maintainability; and with \<open>newmi\<close> true, a walker whose descriptor
  counts \<open>- 5\<close> logical lines gives a maintainability that is NaN, in no interval.
\<close>

theorem maintainability_counterexample:
  "(case analyse standardOwnProperties emptyTree hugeWalker None of
      Inl e \<Rightarrow> False
    | Inr r \<Rightarrow> \<exists>x. maintainability r = Some (Fin x) \<and> x < 0) \<and>
   (case analyse standardOwnProperties emptyTree negativeWalker
           (Some (defaultSettings\<lparr>newmi := True\<rparr>)) of
      Inl e \<Rightarrow> False
    | Inr r \<Rightarrow> maintainability r = Some NaN)"
proof -
  from huge_metrics obtain r where
    "calculateMetrics defaultSettings
       (report (walk standardOwnProperties None [ProcessNode () hugeStatement])) = Inr r"
    and m: "maintainability r = Some (Fin (171 - 162 / 10 * ln 200000))"
    by blast
  then have a: "analyse standardOwnProperties emptyTree hugeWalker None = Inr r"
    by (simp add: analyse_def emptyTree_def hugeWalker_def)
  have lt: "171 - 162 / 10 * ln (200000 :: real) < 0"
    using ln_200000 by simp
  from negativeLines_metrics obtain r' where
    "calculateMetrics (defaultSettings\<lparr>newmi := True\<rparr>)
       (report (walk standardOwnProperties None [ProcessNode () negativeLines])) = Inr r'"
    and nan: "maintainability r' = Some NaN"
    by blast
  then have a': "analyse standardOwnProperties emptyTree negativeWalker
                   (Some (defaultSettings\<lparr>newmi := True\<rparr>)) = Inr r'"
    by (simp add: analyse_def emptyTree_def negativeWalker_def)
  show ?thesis
    unfolding a a' using m lt nan by simp
qed

end
